theory Spec2Isabelle
  imports Main "HOL-Library.Sublist"
begin

section \<open>Data model\<close>

text \<open>
  The tables of \<^verbatim>\<open>app/models.py\<close>. A table is the list of its rows in insertion order.
  Timestamps are microseconds since the epoch (the resolution of Python's \<^verbatim>\<open>datetime\<close>
  and of PostgreSQL's \<^verbatim>\<open>TIMESTAMP\<close>). The fields \<^verbatim>\<open>id\<close> and \<^verbatim>\<open>created_at\<close> carry the
  prefix of their table.
\<close>

record User =
  u_id :: int
  email :: string
  password :: string
  u_created_at :: int

record Post =
  p_id :: int
  title :: string
  content :: string
  published :: bool
  p_created_at :: int
  owner_id :: int

record Vote =
  user_id :: int
  post_id :: int

text \<open>
  The database: the three tables and the two sequences behind the integer primary keys
  of \<^verbatim>\<open>users\<close> and \<^verbatim>\<open>posts\<close>.
\<close>

record db =
  users :: "User list"
  posts :: "Post list"
  votes :: "Vote list"
  users_id_seq :: int
  posts_id_seq :: int

definition empty_db :: db where
  "empty_db = \<lparr>users = [], posts = [], votes = [], users_id_seq = 1, posts_id_seq = 1\<rparr>"

text \<open>The request schemas of \<^verbatim>\<open>app/schemas.py\<close> and the public user representation.\<close>

record UserCreate =
  uc_email :: string
  uc_password :: string

record UserOut =
  out_id :: int
  out_email :: string
  out_created_at :: int

record PostCreate =
  pc_title :: string
  pc_content :: string
  pc_published :: bool

record VoteIn =
  vi_post_id :: int
  dir :: int

record TokenData =
  td_id :: "int option"

section \<open>Errors\<close>

text \<open>
  \<^verbatim>\<open>HTTPException(status_code, detail, headers)\<close> is what the handlers raise. The other
  constructors are exceptions that no handler catches: of the database driver,
  \<^verbatim>\<open>IntegrityError\<close> for a violated key or foreign-key constraint, \<^verbatim>\<open>DataError\<close> for a
  \<^verbatim>\<open>LIMIT\<close> or \<^verbatim>\<open>OFFSET\<close> out of range and for an exhausted sequence, and \<^verbatim>\<open>ValueError\<close>
  for a string parameter that holds the character NUL; of the framework, \<^verbatim>\<open>RequestValidationError\<close> (the
  422 response) for a body that its schema refuses and \<^verbatim>\<open>ResponseValidationError\<close> for a
  handler that returns \<^verbatim>\<open>None\<close> where the \<^verbatim>\<open>response_model\<close> wants an object.
\<close>

datatype error =
  HTTPException (status_code: nat) (detail: string) (headers: "(string \<times> string) list")
  | IntegrityError
  | DataError
  | ValueError
  | RequestValidationError
  | ResponseValidationError

subsection \<open>Python's \<^verbatim>\<open>str\<close> on integers, for the f-strings of the messages\<close>

definition digit_char :: "nat \<Rightarrow> char" where
  "digit_char d = char_of (48 + d)"

fun str_nat :: "nat \<Rightarrow> string" where
  "str_nat n = (if n < 10 then [digit_char n] else str_nat (n div 10) @ [digit_char (n mod 10)])"

declare str_nat.simps [simp del]

definition str_int :: "int \<Rightarrow> string" where
  "str_int i = (if i < 0 then CHR ''-'' # str_nat (nat (- i)) else str_nat (nat i))"

section \<open>The store: inserts under the constraints of the tables\<close>

text \<open>
  The driver \<^verbatim>\<open>psycopg2\<close> puts the parameters into the statement before it sends it, and
  raises \<^verbatim>\<open>ValueError\<close> for a string that holds the character NUL: the statement is then
  never sent and the database is as it was.
\<close>

definition nul :: char where
  "nul = CHR 0x00"

definition holds_nul :: "string \<Rightarrow> bool" where
  "holds_nul s \<longleftrightarrow> nul \<in> set s"

text \<open>
  \<^verbatim>\<open>db.add(row); db.commit()\<close> is an \<^verbatim>\<open>INSERT\<close>. The \<^verbatim>\<open>id\<close> of users and posts is a 32-bit
  \<^verbatim>\<open>Integer\<close> fed by a sequence: past its largest value the insert ends in a \<^verbatim>\<open>DataError\<close>.
  PostgreSQL rejects the insert with an \<^verbatim>\<open>IntegrityError\<close> when the row repeats a primary
  key or a unique column, or refers to a missing row through a foreign key; the tables
  are then unchanged, and the value taken from the sequence is used up all the same. In
  \<open>insert_user\<close> the email has passed \<^verbatim>\<open>EmailStr\<close> and the password is the digest that bcrypt
  returned: neither holds NUL.
\<close>

definition int4_max :: int where
  "int4_max = 2 ^ 31 - 1"

definition insert_user :: "string \<Rightarrow> string \<Rightarrow> int \<Rightarrow> db \<Rightarrow> (error + User) \<times> db" where
  "insert_user em pw now d =
     (let i = users_id_seq d;
          d1 = d\<lparr>users_id_seq := i + 1\<rparr>;
          row = \<lparr>u_id = i, email = em, password = pw, u_created_at = now\<rparr>
      in if int4_max < i then (Inl DataError, d)
         else if i \<in> set (map u_id (users d)) \<or> em \<in> set (map email (users d))
         then (Inl IntegrityError, d1)
         else (Inr row, d1\<lparr>users := users d @ [row]\<rparr>))"

definition insert_post :: "int \<Rightarrow> PostCreate \<Rightarrow> int \<Rightarrow> db \<Rightarrow> (error + Post) \<times> db" where
  "insert_post owner pc now d =
     (let i = posts_id_seq d;
          d1 = d\<lparr>posts_id_seq := i + 1\<rparr>;
          row = \<lparr>p_id = i, title = pc_title pc, content = pc_content pc,
                 published = pc_published pc, p_created_at = now, owner_id = owner\<rparr>
      in if holds_nul (pc_title pc) \<or> holds_nul (pc_content pc) then (Inl ValueError, d)
         else if int4_max < i then (Inl DataError, d)
         else if i \<in> set (map p_id (posts d)) \<or> owner \<notin> set (map u_id (users d))
         then (Inl IntegrityError, d1)
         else (Inr row, d1\<lparr>posts := posts d @ [row]\<rparr>))"

definition vote_key :: "Vote \<Rightarrow> int \<times> int" where
  "vote_key v = (user_id v, post_id v)"

definition insert_vote :: "Vote \<Rightarrow> db \<Rightarrow> (error + unit) \<times> db" where
  "insert_vote v d =
     (if vote_key v \<in> set (map vote_key (votes d))
         \<or> user_id v \<notin> set (map u_id (users d))
         \<or> post_id v \<notin> set (map p_id (posts d))
      then (Inl IntegrityError, d)
      else (Inr (), d\<lparr>votes := votes d @ [v]\<rparr>))"

text \<open>
  \<^verbatim>\<open>DELETE FROM posts WHERE id = :id\<close>: the foreign key of \<^verbatim>\<open>votes.post_id\<close> is declared
  \<^verbatim>\<open>ondelete="CASCADE"\<close>, so the votes on the deleted posts go with them.
\<close>

definition delete_posts_where_id :: "int \<Rightarrow> db \<Rightarrow> db" where
  "delete_posts_where_id i d =
     d\<lparr>posts := filter (\<lambda>p. p_id p \<noteq> i) (posts d),
       votes := filter (\<lambda>v. post_id v \<noteq> i) (votes d)\<rparr>"

section \<open>Votes (\<^verbatim>\<open>app/routers/vote.py\<close>)\<close>

definition vote :: "VoteIn \<Rightarrow> db \<Rightarrow> User \<Rightarrow> (error + string) \<times> db" where
  "vote v d current_user =
     (case find (\<lambda>p. p_id p = vi_post_id v) (posts d) of
        None \<Rightarrow>
          (Inl (HTTPException 404
                 (''Post with id '' @ str_int (vi_post_id v) @ '' does not exist'') []), d)
      | Some post \<Rightarrow>
          (let vote_query = (\<lambda>r. post_id r = vi_post_id v \<and> user_id r = u_id current_user);
               found_vote = find vote_query (votes d)
           in if dir v = 1 then
                (case found_vote of
                   Some _ \<Rightarrow>
                     (Inl (HTTPException 409
                            (''user '' @ str_int (u_id current_user)
                               @ '' has already voted on post '' @ str_int (vi_post_id v)) []), d)
                 | None \<Rightarrow>
                     (let new_vote = \<lparr>user_id = u_id current_user, post_id = vi_post_id v\<rparr>
                      in case insert_vote new_vote d of
                           (Inl e, d') \<Rightarrow> (Inl e, d')
                         | (Inr _, d') \<Rightarrow> (Inr ''successfully added vote'', d')))
              else
                (case found_vote of
                   None \<Rightarrow> (Inl (HTTPException 404 ''vote does not exist'' []), d)
                 | Some _ \<Rightarrow>
                     (Inr ''successfully deleted vote'',
                      d\<lparr>votes := filter (\<lambda>r. \<not> vote_query r) (votes d)\<rparr>))))"

section \<open>Queries over posts and votes\<close>

text \<open>
  \<^verbatim>\<open>title.contains(search)\<close> is rendered by SQLAlchemy as
  \<^verbatim>\<open>title LIKE '%' || :search || '%'\<close>, and the search text is not escaped
  (\<^verbatim>\<open>autoescape\<close> is off unless asked for). In a PostgreSQL \<^verbatim>\<open>LIKE\<close> pattern \<^verbatim>\<open>%\<close> matches
  any run of characters, \<^verbatim>\<open>_\<close> any one character, and a backslash makes the next character
  literal. \<open>like_match p t\<close> is \<^verbatim>\<open>t LIKE p\<close>. (A pattern that ends with a lone backslash
  is an error in PostgreSQL; no pattern built below does, since each ends with \<^verbatim>\<open>%\<close>.)
\<close>

definition backslash :: char where
  "backslash = CHR 0x5C"

function like_match :: "string \<Rightarrow> string \<Rightarrow> bool" where
  "like_match [] t = (t = [])"
| "like_match (c # p) t =
     (if c = CHR ''%'' then
        like_match p t \<or> (case t of [] \<Rightarrow> False | x # t' \<Rightarrow> like_match (c # p) t')
      else if c = CHR ''_'' then
        (case t of [] \<Rightarrow> False | x # t' \<Rightarrow> like_match p t')
      else if c = backslash then
        (case p of [] \<Rightarrow> False
         | e # p' \<Rightarrow> (case t of [] \<Rightarrow> False | x # t' \<Rightarrow> x = e \<and> like_match p' t'))
      else
        (case t of [] \<Rightarrow> False | x # t' \<Rightarrow> x = c \<and> like_match p t'))"
  by pat_completeness auto
termination
  by (relation "measure (\<lambda>(p, t). length p + length t)") auto

definition contains :: "string \<Rightarrow> string \<Rightarrow> bool" where
  "contains column other = like_match (''%'' @ other @ ''%'') column"

text \<open>
  \<^verbatim>\<open>posts LEFT OUTER JOIN votes ON votes.post_id = posts.id\<close>: one row per matching vote,
  and one row with a null vote for a post without votes.
\<close>

definition outerjoin_rows :: "Post \<Rightarrow> Vote list \<Rightarrow> (Post \<times> Vote option) list" where
  "outerjoin_rows p vs =
     (case filter (\<lambda>v. post_id v = p_id p) vs of
        [] \<Rightarrow> [(p, None)]
      | ms \<Rightarrow> map (\<lambda>v. (p, Some v)) ms)"

definition outerjoin :: "Post list \<Rightarrow> Vote list \<Rightarrow> (Post \<times> Vote option) list" where
  "outerjoin ps vs = concat (map (\<lambda>p. outerjoin_rows p vs) ps)"

text \<open>
  \<^verbatim>\<open>GROUP BY posts.id\<close> with the aggregate \<^verbatim>\<open>count(votes.post_id)\<close>: one result row per
  post id, counting the rows of its group whose vote is not null.
\<close>

function group_by :: "(Post \<times> Vote option) list \<Rightarrow> (Post \<times> int) list" where
  "group_by [] = []"
| "group_by (r # rs) =
     (fst r, int (length (filter (\<lambda>x. p_id (fst x) = p_id (fst r) \<and> snd x \<noteq> None) (r # rs))))
       # group_by (filter (\<lambda>x. p_id (fst x) \<noteq> p_id (fst r)) rs)"
  by pat_completeness auto
termination
  by (relation "measure length") (auto simp: less_Suc_eq_le)

definition order_by :: "(Post \<times> int) list \<Rightarrow> (Post \<times> int) list" where
  "order_by rows = sort_key (\<lambda>r. p_id (fst r)) rows"

text \<open>
  \<^verbatim>\<open>LIMIT :limit OFFSET :skip\<close>: the offset is applied first, whatever the order of the two
  calls in the query. Both are of type \<^verbatim>\<open>bigint\<close>: PostgreSQL refuses a negative value and
  a value of \<open>2 ^ 63\<close> or more.
\<close>

definition bigint_max :: int where
  "bigint_max = 2 ^ 63 - 1"

definition limit_offset :: "int \<Rightarrow> int \<Rightarrow> 'a list \<Rightarrow> error + 'a list" where
  "limit_offset lim off rows =
     (if lim < 0 \<or> off < 0 \<or> bigint_max < lim \<or> bigint_max < off then Inl DataError
      else Inr (take (nat lim) (drop (nat off) rows)))"

section \<open>Posts (\<^verbatim>\<open>app/routers/post.py\<close>)\<close>

definition get_posts :: "db \<Rightarrow> User \<Rightarrow> int \<Rightarrow> int \<Rightarrow> string \<Rightarrow> error + (Post \<times> int) list" where
  "get_posts d current_user limit skip search =
     (if holds_nul search then Inl ValueError
      else limit_offset limit skip
             (order_by (group_by
                (filter (\<lambda>r. contains (title (fst r)) search)
                   (outerjoin (posts d) (votes d))))))"

definition create_post :: "PostCreate \<Rightarrow> int \<Rightarrow> db \<Rightarrow> User \<Rightarrow> (error + Post) \<times> db" where
  "create_post post now d current_user = insert_post (u_id current_user) post now d"

definition get_post :: "int \<Rightarrow> db \<Rightarrow> User \<Rightarrow> error + (Post \<times> int)" where
  "get_post i d current_user =
     (case group_by (filter (\<lambda>r. p_id (fst r) = i) (outerjoin (posts d) (votes d))) of
        [] \<Rightarrow> Inl (HTTPException 404 (''Post with '' @ str_int i @ '' was not found'') [])
      | post # _ \<Rightarrow> Inr post)"

text \<open>The body of the 204 response of \<^verbatim>\<open>delete_post\<close> is empty: the result is \<open>()\<close>.\<close>

definition delete_post :: "int \<Rightarrow> db \<Rightarrow> User \<Rightarrow> (error + unit) \<times> db" where
  "delete_post i d current_user =
     (case find (\<lambda>p. p_id p = i) (posts d) of
        None \<Rightarrow> (Inl (HTTPException 404 (''Post with '' @ str_int i @ '' was not found'') []), d)
      | Some post \<Rightarrow>
          if owner_id post \<noteq> u_id current_user
          then (Inl (HTTPException 403 ''You are not the owner of the post'' []), d)
          else (Inr (), delete_posts_where_id i d))"

text \<open>
  \<^verbatim>\<open>post_query.update(updated_post.model_dump())\<close> assigns the three fields of the schema
  on every row of the query, unless the driver refuses the title or the content;
  \<^verbatim>\<open>post_query.first()\<close> then reads the row again.
\<close>

definition set_fields :: "PostCreate \<Rightarrow> Post \<Rightarrow> Post" where
  "set_fields pc p =
     p\<lparr>title := pc_title pc, content := pc_content pc, published := pc_published pc\<rparr>"

definition update_posts_where_id :: "int \<Rightarrow> PostCreate \<Rightarrow> db \<Rightarrow> error + db" where
  "update_posts_where_id i pc d =
     (if holds_nul (pc_title pc) \<or> holds_nul (pc_content pc) then Inl ValueError
      else Inr (d\<lparr>posts := map (\<lambda>p. if p_id p = i then set_fields pc p else p) (posts d)\<rparr>))"

definition update_post :: "int \<Rightarrow> PostCreate \<Rightarrow> db \<Rightarrow> User \<Rightarrow> (error + Post option) \<times> db" where
  "update_post i updated_post d current_user =
     (case find (\<lambda>p. p_id p = i) (posts d) of
        None \<Rightarrow> (Inl (HTTPException 404 (''Post with '' @ str_int i @ '' was not found'') []), d)
      | Some post \<Rightarrow>
          if owner_id post \<noteq> u_id current_user
          then (Inl (HTTPException 403 ''You are not the owner of the post'' []), d)
          else (case update_posts_where_id i updated_post d of
                  Inl e \<Rightarrow> (Inl e, d)
                | Inr d' \<Rightarrow> (Inr (find (\<lambda>p. p_id p = i) (posts d')), d')))"

section \<open>Access tokens (\<^verbatim>\<open>app/oauth2.py\<close>)\<close>

record settings =
  secret_key :: string
  algorithm :: string
  access_token_expire_minutes :: int

text \<open>
  The library \<^verbatim>\<open>jose\<close> is modelled symbolically. A token is either text that is not a JWT
  (\<open>Malformed\<close>), or a JWT with the algorithm named in its header, its claims and its
  signature. A signature \<open>HMAC k a c\<close> stands for the tag that the key \<open>k\<close> gives the
  claims \<open>c\<close> under the algorithm \<open>a\<close>: two signatures agree exactly when key, algorithm and
  claims agree. The claims are those this application signs: the subject \<^verbatim>\<open>user_id\<close> and the
  expiry \<^verbatim>\<open>exp\<close>, each possibly absent. Before encoding the expiry is a \<^verbatim>\<open>datetime\<close>
  (microseconds); in the token it is a whole number of seconds.
\<close>

record claims =
  c_user_id :: "int option"
  c_exp :: "int option"

datatype signature = HMAC string string claims

datatype token = JWT (jwt_alg: string) (jwt_claims: claims) (jwt_sig: signature) | Malformed

datatype JWTError = JWSError | ExpiredSignatureError

definition timegm_utctimetuple :: "int \<Rightarrow> int" where
  "timegm_utctimetuple t = t div 1000000"

definition timedelta_minutes :: "int \<Rightarrow> int" where
  "timedelta_minutes m = m * 60 * 1000000"

text \<open>
  \<^verbatim>\<open>jwt.encode\<close> replaces a \<^verbatim>\<open>datetime\<close> under \<^verbatim>\<open>exp\<close> by
  \<^verbatim>\<open>timegm(exp.utctimetuple())\<close>, which drops the microseconds, and signs the claims.
\<close>

definition jwt_encode :: "claims \<Rightarrow> string \<Rightarrow> string \<Rightarrow> token" where
  "jwt_encode to_encode key alg =
     (let c = to_encode\<lparr>c_exp := map_option timegm_utctimetuple (c_exp to_encode)\<rparr>
      in JWT alg c (HMAC key alg c))"

text \<open>
  \<^verbatim>\<open>jwt.decode\<close> raises a \<^verbatim>\<open>JWTError\<close> for text that is not a JWT, for an algorithm
  outside \<^verbatim>\<open>algorithms\<close> and for a signature that does not verify; then, when the claims
  hold an expiry, \<^verbatim>\<open>ExpiredSignatureError\<close> (a \<^verbatim>\<open>JWTError\<close>) if
  \<^verbatim>\<open>exp < timegm(now.utctimetuple())\<close>.
\<close>

definition jwt_decode :: "token \<Rightarrow> string \<Rightarrow> string list \<Rightarrow> int \<Rightarrow> JWTError + claims" where
  "jwt_decode tok key algorithms now =
     (case tok of
        Malformed \<Rightarrow> Inl JWSError
      | JWT alg c sg \<Rightarrow>
          if alg \<notin> set algorithms \<or> sg \<noteq> HMAC key alg c then Inl JWSError
          else (case c_exp c of
                  None \<Rightarrow> Inr c
                | Some exp \<Rightarrow>
                    if exp < timegm_utctimetuple now then Inl ExpiredSignatureError else Inr c))"

definition create_access_token :: "settings \<Rightarrow> int \<Rightarrow> claims \<Rightarrow> token" where
  "create_access_token cfg now data =
     (let to_encode = data;
          expire = now + timedelta_minutes (access_token_expire_minutes cfg);
          to_encode = to_encode\<lparr>c_exp := Some expire\<rparr>
      in jwt_encode to_encode (secret_key cfg) (algorithm cfg))"

definition verify_access_token :: "settings \<Rightarrow> int \<Rightarrow> token \<Rightarrow> error \<Rightarrow> error + TokenData" where
  "verify_access_token cfg now tok credentials_exception =
     (case jwt_decode tok (secret_key cfg) [algorithm cfg] now of
        Inl _ \<Rightarrow> Inl credentials_exception
      | Inr payload \<Rightarrow>
          (case c_user_id payload of
             None \<Rightarrow> Inl credentials_exception
           | Some i \<Rightarrow> Inr \<lparr>td_id = Some i\<rparr>))"

definition credentials_exception :: error where
  "credentials_exception =
     HTTPException 401 ''Could not validate credentials'' [(''WWW-Authenticate'', ''Bearer'')]"

definition get_current_user :: "settings \<Rightarrow> int \<Rightarrow> token \<Rightarrow> db \<Rightarrow> error + User" where
  "get_current_user cfg now tok d =
     (case verify_access_token cfg now tok credentials_exception of
        Inl e \<Rightarrow> Inl e
      | Inr td \<Rightarrow>
          (case find (\<lambda>u. Some (u_id u) = td_id td) (users d) of
             None \<Rightarrow> Inl credentials_exception
           | Some u \<Rightarrow> Inr u))"

section \<open>Users (\<^verbatim>\<open>app/routers/user.py\<close>)\<close>

text \<open>
  \<^verbatim>\<open>utils.hash\<close> salts the digest at random, so the hash is a parameter \<open>hash\<close> of the
  handler: nothing is assumed of it. The handlers return the stored row; the
  \<^verbatim>\<open>response_model\<close> of the route, \<^verbatim>\<open>schemas.UserOut\<close>, builds the response body from the
  attributes it names.
\<close>

definition create_user :: "(string \<Rightarrow> string) \<Rightarrow> UserCreate \<Rightarrow> int \<Rightarrow> db \<Rightarrow> (error + User) \<times> db" where
  "create_user hash user now d =
     (let hashed_password = hash (uc_password user);
          user = user\<lparr>uc_password := hashed_password\<rparr>
      in insert_user (uc_email user) (uc_password user) now d)"

definition get_user :: "int \<Rightarrow> db \<Rightarrow> error + User" where
  "get_user i d =
     (case find (\<lambda>u. u_id u = i) (users d) of
        None \<Rightarrow> Inl (HTTPException 404 (''User with '' @ str_int i @ '' was not found'') [])
      | Some user \<Rightarrow> Inr user)"

definition UserOut_from_attributes :: "User \<Rightarrow> UserOut" where
  "UserOut_from_attributes u =
     \<lparr>out_id = u_id u, out_email = email u, out_created_at = u_created_at u\<rparr>"

section \<open>Login (\<^verbatim>\<open>app/routers/auth.py\<close>)\<close>

text \<open>
  \<^verbatim>\<open>utils.verify_password\<close> is the parameter \<open>verify_password\<close>, as the hash is above. The
  result is the token and its type.
\<close>

definition login :: "(string \<Rightarrow> string \<Rightarrow> bool) \<Rightarrow> settings \<Rightarrow> int \<Rightarrow> string \<Rightarrow> string \<Rightarrow> db
    \<Rightarrow> error + (token \<times> string)" where
  "login verify_password cfg now username pw d =
     (if holds_nul username then Inl ValueError
      else case find (\<lambda>u. email u = username) (users d) of
        None \<Rightarrow> Inl (HTTPException 403 ''Invalid credentials'' [])
      | Some user \<Rightarrow>
          if \<not> verify_password pw (password user)
          then Inl (HTTPException 403 ''Invalid credentials'' [])
          else Inr (create_access_token cfg now \<lparr>c_user_id = Some (u_id user), c_exp = None\<rparr>,
                    ''bearer''))"

section \<open>The routes\<close>

text \<open>
  A request names a route with its parameters. The routes of posts and votes depend on
  \<^verbatim>\<open>oauth2.get_current_user\<close>, which runs on the bearer token before the handler and whose
  exception ends the request. The query parameters of \<^verbatim>\<open>GET /posts\<close> are optional, with
  the defaults of the signature. \<open>now\<close> is the clock at the request. The body of a request
  is validated against its schema after the dependencies have run and before the handler:
  \<open>Refused\<close> is a body that the schema refuses (a field missing or of another type), to
  which the framework answers 422; \<open>Accepted\<close> carries the object of the schema. The body of a user
  route is the \<^verbatim>\<open>UserOut\<close> of the row; the body of a post route is given by the rows the
  handler returns (the public representation of the owner, nested in it, is left out).
\<close>

datatype 'a body = Refused | Accepted 'a

datatype request =
  Login "string \<Rightarrow> string \<Rightarrow> bool" string string
  | PostUsers "string \<Rightarrow> string" "UserCreate body"
  | GetUser int
  | GetPosts token "int option" "int option" "string option"
  | PostPosts token "PostCreate body"
  | GetPost token int
  | DeletePost token int
  | PutPost token int "PostCreate body"
  | PostVotes token "VoteIn body"

datatype response =
  TokenBody "token \<times> string"
  | UserBody UserOut
  | PostBody Post
  | PostOutBody "Post \<times> int"
  | PostOutList "(Post \<times> int) list"
  | MessageBody string
  | NoContent

definition limit_default :: int where
  "limit_default = 10"

definition skip_default :: int where
  "skip_default = 0"

definition search_default :: string where
  "search_default = []"

definition protected :: "settings \<Rightarrow> int \<Rightarrow> token \<Rightarrow> db \<Rightarrow> (User \<Rightarrow> (error + response) \<times> db)
    \<Rightarrow> (error + response) \<times> db" where
  "protected cfg now tok d handler =
     (case get_current_user cfg now tok d of
        Inl e \<Rightarrow> (Inl e, d)
      | Inr current_user \<Rightarrow> handler current_user)"

definition respond :: "('a \<Rightarrow> response) \<Rightarrow> (error + 'a) \<times> db \<Rightarrow> (error + response) \<times> db" where
  "respond body r = (map_sum (\<lambda>e. e) body (fst r), snd r)"

definition validated :: "'a body \<Rightarrow> db \<Rightarrow> ('a \<Rightarrow> (error + response) \<times> db)
    \<Rightarrow> (error + response) \<times> db" where
  "validated b d handler =
     (case b of
        Refused \<Rightarrow> (Inl RequestValidationError, d)
      | Accepted x \<Rightarrow> handler x)"

text \<open>\<^verbatim>\<open>schemas.Vote\<close> also constrains \<^verbatim>\<open>dir\<close> by \<^verbatim>\<open>ge=0\<close> and \<^verbatim>\<open>le=1\<close>.\<close>

definition Vote_valid :: "VoteIn \<Rightarrow> bool" where
  "Vote_valid v \<longleftrightarrow> 0 \<le> dir v \<and> dir v \<le> 1"

definition handle :: "settings \<Rightarrow> int \<Rightarrow> request \<Rightarrow> db \<Rightarrow> (error + response) \<times> db" where
  "handle cfg now req d =
     (case req of
        Login verify_password username pw \<Rightarrow>
          respond TokenBody (login verify_password cfg now username pw d, d)
      | PostUsers hash b \<Rightarrow>
          validated b d (\<lambda>uc.
            respond (\<lambda>u. UserBody (UserOut_from_attributes u)) (create_user hash uc now d))
      | GetUser i \<Rightarrow>
          respond (\<lambda>u. UserBody (UserOut_from_attributes u)) (get_user i d, d)
      | GetPosts tok limit skip search \<Rightarrow>
          protected cfg now tok d (\<lambda>cu.
            respond PostOutList
              (get_posts d cu (case limit of None \<Rightarrow> limit_default | Some l \<Rightarrow> l)
                 (case skip of None \<Rightarrow> skip_default | Some k \<Rightarrow> k)
                 (case search of None \<Rightarrow> search_default | Some s \<Rightarrow> s), d))
      | PostPosts tok b \<Rightarrow>
          protected cfg now tok d (\<lambda>cu.
            validated b d (\<lambda>pc. respond PostBody (create_post pc now d cu)))
      | GetPost tok i \<Rightarrow>
          protected cfg now tok d (\<lambda>cu. respond PostOutBody (get_post i d cu, d))
      | DeletePost tok i \<Rightarrow>
          protected cfg now tok d (\<lambda>cu. respond (\<lambda>_. NoContent) (delete_post i d cu))
      | PutPost tok i b \<Rightarrow>
          protected cfg now tok d (\<lambda>cu.
            validated b d (\<lambda>pc.
              case update_post i pc d cu of
                (Inl e, d') \<Rightarrow> (Inl e, d')
              | (Inr None, d') \<Rightarrow> (Inl ResponseValidationError, d')
              | (Inr (Some p), d') \<Rightarrow> (Inr (PostBody p), d')))
      | PostVotes tok b \<Rightarrow>
          protected cfg now tok d (\<lambda>cu.
            validated b d (\<lambda>v.
              if Vote_valid v then respond MessageBody (vote v d cu)
              else (Inl RequestValidationError, d))))"

text \<open>The states the service can be in: the empty database, and any state after a request.\<close>

inductive reachable :: "settings \<Rightarrow> db \<Rightarrow> bool" for cfg :: settings where
  reachable_empty: "reachable cfg empty_db"
| reachable_handle: "reachable cfg d \<Longrightarrow> reachable cfg (snd (handle cfg now req d))"

section \<open>Constraints of the schema and the specification of the listing\<close>

text \<open>
  What \<^verbatim>\<open>app/models.py\<close> declares and PostgreSQL enforces: the primary keys, the unique
  email, and the foreign keys of posts and votes.
\<close>

definition constraints :: "db \<Rightarrow> bool" where
  "constraints d \<longleftrightarrow>
     distinct (map u_id (users d)) \<and> distinct (map email (users d))
     \<and> distinct (map p_id (posts d)) \<and> distinct (map vote_key (votes d))
     \<and> (\<forall>p \<in> set (posts d). owner_id p \<in> set (map u_id (users d)))
     \<and> (\<forall>v \<in> set (votes d). user_id v \<in> set (map u_id (users d))
                             \<and> post_id v \<in> set (map p_id (posts d)))"

text \<open>The sequences have passed every id they handed out.\<close>

definition sequences_ahead :: "db \<Rightarrow> bool" where
  "sequences_ahead d \<longleftrightarrow>
     (\<forall>u \<in> set (users d). u_id u < users_id_seq d)
     \<and> (\<forall>p \<in> set (posts d). p_id p < posts_id_seq d)"

definition vote_count :: "db \<Rightarrow> int \<Rightarrow> int" where
  "vote_count d i = int (length (filter (\<lambda>v. post_id v = i) (votes d)))"

definition votes_of_pair :: "db \<Rightarrow> int \<Rightarrow> int \<Rightarrow> Vote list" where
  "votes_of_pair d u p = filter (\<lambda>v. user_id v = u \<and> post_id v = p) (votes d)"

text \<open>
  The listing as the specification words it: the posts whose title contains the search
  text as a substring, by ascending id, each with the number of votes that refer to it,
  \<open>skip\<close> rows dropped and at most \<open>limit\<close> rows kept.
\<close>

definition list_posts_spec :: "db \<Rightarrow> int \<Rightarrow> int \<Rightarrow> string \<Rightarrow> (Post \<times> int) list" where
  "list_posts_spec d limit skip search =
     take (nat limit) (drop (nat skip)
       (map (\<lambda>p. (p, vote_count d (p_id p)))
          (sort_key p_id (filter (\<lambda>p. sublist search (title p)) (posts d)))))"

definition like_wildcards :: "char set" where
  "like_wildcards = {CHR ''%'', CHR ''_'', backslash}"

definition set_published :: "(Post \<Rightarrow> bool) \<Rightarrow> Post \<Rightarrow> Post" where
  "set_published f p = p\<lparr>published := f p\<rparr>"

definition set_password :: "(User \<Rightarrow> string) \<Rightarrow> User \<Rightarrow> User" where
  "set_password g u = u\<lparr>password := g u\<rparr>"

text \<open>The two errors of the routes that change or delete a post.\<close>

definition not_found :: "int \<Rightarrow> error" where
  "not_found i = HTTPException 404 (''Post with '' @ str_int i @ '' was not found'') []"

definition forbidden :: error where
  "forbidden = HTTPException 403 ''You are not the owner of the post'' []"

text \<open>
  The changes a request can make to the database, as the store sees them: a sequence
  moves on, a row is inserted under its constraints, votes of one pair are deleted, the
  posts of an id are deleted with their votes, or the posts of an id are updated.
\<close>

inductive store_step :: "db \<Rightarrow> db \<Rightarrow> bool" where
  step_none: "store_step d d"
| step_users_seq: "store_step d (d\<lparr>users_id_seq := users_id_seq d + 1\<rparr>)"
| step_posts_seq: "store_step d (d\<lparr>posts_id_seq := posts_id_seq d + 1\<rparr>)"
| step_insert_user:
    "u_id u = users_id_seq d \<Longrightarrow> u_id u \<notin> set (map u_id (users d)) \<Longrightarrow>
     email u \<notin> set (map email (users d)) \<Longrightarrow>
     store_step d (d\<lparr>users_id_seq := users_id_seq d + 1, users := users d @ [u]\<rparr>)"
| step_insert_post:
    "p_id p = posts_id_seq d \<Longrightarrow> p_id p \<notin> set (map p_id (posts d)) \<Longrightarrow>
     owner_id p \<in> set (map u_id (users d)) \<Longrightarrow>
     store_step d (d\<lparr>posts_id_seq := posts_id_seq d + 1, posts := posts d @ [p]\<rparr>)"
| step_insert_vote:
    "vote_key v \<notin> set (map vote_key (votes d)) \<Longrightarrow>
     user_id v \<in> set (map u_id (users d)) \<Longrightarrow> post_id v \<in> set (map p_id (posts d)) \<Longrightarrow>
     store_step d (d\<lparr>votes := votes d @ [v]\<rparr>)"
| step_delete_votes: "store_step d (d\<lparr>votes := filter P (votes d)\<rparr>)"
| step_delete_posts: "store_step d (delete_posts_where_id i d)"
| step_update_posts:
    "store_step d (d\<lparr>posts := map (\<lambda>p. if p_id p = i then set_fields pc p else p) (posts d)\<rparr>)"

text \<open>At most one vote per pair of user and post: no two rows of \<open>votes\<close> share their key.\<close>

definition one_vote_per_pair :: "db \<Rightarrow> bool" where
  "one_vote_per_pair d \<longleftrightarrow> distinct (map vote_key (votes d))"

section \<open>A small database for the examples\<close>

definition alice :: User where
  "alice = \<lparr>u_id = 1, email = ''alice@example.com'', password = ''$2b$12$digest-of-alice'',
            u_created_at = 1000000\<rparr>"

definition bob :: User where
  "bob = \<lparr>u_id = 2, email = ''bob@example.com'', password = ''$2b$12$digest-of-bob'',
          u_created_at = 2000000\<rparr>"

definition post1 :: Post where
  "post1 = \<lparr>p_id = 1, title = ''abc'', content = ''cba'', published = True,
            p_created_at = 3000000, owner_id = 1\<rparr>"

definition post2 :: Post where
  "post2 = \<lparr>p_id = 2, title = ''wer'', content = ''rew'', published = False,
            p_created_at = 4000000, owner_id = 2\<rparr>"

definition db0 :: db where
  "db0 = \<lparr>users = [alice, bob], posts = [post1, post2],
          votes = [\<lparr>user_id = 2, post_id = 1\<rparr>], users_id_seq = 3, posts_id_seq = 3\<rparr>"

definition cfg0 :: settings where
  "cfg0 = \<lparr>secret_key = ''09d25e094faa6ca2556c818166b7a9563b93f7099f6f0f4caa6cf63b88e8d3e7'',
           algorithm = ''HS256'', access_token_expire_minutes = 30\<rparr>"

definition payload0 :: PostCreate where
  "payload0 = \<lparr>pc_title = ''new title'', pc_content = ''new content'', pc_published = True\<rparr>"

definition post1_updated :: Post where
  "post1_updated = \<lparr>p_id = 1, title = ''new title'', content = ''new content'',
                    published = True, p_created_at = 3000000, owner_id = 1\<rparr>"

definition alice_token :: token where
  "alice_token = create_access_token cfg0 2000000 \<lparr>c_user_id = Some 1, c_exp = None\<rparr>"

definition bob_token :: token where
  "bob_token = create_access_token cfg0 2000000 \<lparr>c_user_id = Some 2, c_exp = None\<rparr>"

definition hash0 :: "string \<Rightarrow> string" where
  "hash0 pw = ''$2b$12$digest-of-'' @ pw"

definition register_alice :: request where
  "register_alice =
     PostUsers hash0 (Accepted \<lparr>uc_email = ''alice@example.com'', uc_password = ''alice''\<rparr>)"

definition db_a :: db where
  "db_a = \<lparr>users = [alice], posts = [], votes = [], users_id_seq = 2, posts_id_seq = 1\<rparr>"

definition db_b :: db where
  "db_b = \<lparr>users = [alice], posts = [post1], votes = [], users_id_seq = 2, posts_id_seq = 2\<rparr>"

definition db_c :: db where
  "db_c = \<lparr>users = [alice], posts = [post1], votes = [\<lparr>user_id = 1, post_id = 1\<rparr>],
           users_id_seq = 2, posts_id_seq = 2\<rparr>"

definition post3 :: Post where
  "post3 = \<lparr>p_id = 3, title = ''new title'', content = ''new content'', published = True,
            p_created_at = 9000000, owner_id = 1\<rparr>"

definition payload_nul :: PostCreate where
  "payload_nul = \<lparr>pc_title = [nul], pc_content = ''cba'', pc_published = True\<rparr>"

section \<open>Lookups\<close>

lemma find_post_None: "find (\<lambda>p. p_id p = i) ps = None \<longleftrightarrow> i \<notin> set (map p_id ps)"
  by (auto simp: find_None_iff)

lemma find_post_Some: "i \<in> set (map p_id ps) \<Longrightarrow> \<exists>p. find (\<lambda>p. p_id p = i) ps = Some p \<and> p \<in> set ps \<and> p_id p = i"
  by (induction ps) auto

lemma Vote_eq_iff: "(r :: Vote) = \<lparr>user_id = u, post_id = p\<rparr> \<longleftrightarrow> user_id r = u \<and> post_id r = p"
  by (cases r) simp

lemma vote_key_eq_iff: "vote_key (r :: Vote) = vote_key r' \<longleftrightarrow> r = r'"
  by (cases r, cases r') (simp add: vote_key_def)

lemma find_vote_None:
  "find (\<lambda>r. post_id r = p \<and> user_id r = u) vs = None \<longleftrightarrow> \<lparr>user_id = u, post_id = p\<rparr> \<notin> set vs"
  by (induction vs) (auto simp: Vote_eq_iff)

lemma filter_vote_removeAll:
  "filter (\<lambda>r. \<not> (post_id r = p \<and> user_id r = u)) vs = removeAll \<lparr>user_id = u, post_id = p\<rparr> vs"
proof -
  have "(\<lambda>r. \<not> (post_id r = p \<and> user_id r = u)) = (\<lambda>r. \<lparr>user_id = u, post_id = p\<rparr> \<noteq> r)"
    by (auto simp: fun_eq_iff Vote_eq_iff)
  then show ?thesis
    by (simp only: removeAll_filter_not_eq)
qed

section \<open>Votes: the five outcomes\<close>

text \<open>
  C1. For an authenticated caller (a row of \<open>users\<close>) and a vote request on \<open>pid\<close>: when no
  post has the id \<open>pid\<close>, the request fails with 404 and the database is unchanged.
  Otherwise, with \<open>dir = 1\<close> it fails with 409 when the caller's vote on the post exists,
  and else appends exactly that vote and reports success; with \<open>dir = 0\<close> it fails with 404
  when the caller's vote is missing, and else removes exactly that vote and reports
  success. Every failure leaves the database unchanged.
\<close>

theorem vote_cases:
  assumes auth: "current_user \<in> set (users d)"
  shows "let pid = vi_post_id v; uid = u_id current_user;
             row = \<lparr>user_id = uid, post_id = pid\<rparr>
         in (pid \<notin> set (map p_id (posts d)) \<longrightarrow>
               vote v d current_user =
                 (Inl (HTTPException 404
                        (''Post with id '' @ str_int pid @ '' does not exist'') []), d))
          \<and> (pid \<in> set (map p_id (posts d)) \<and> dir v = 1 \<and> row \<in> set (votes d) \<longrightarrow>
               vote v d current_user =
                 (Inl (HTTPException 409
                        (''user '' @ str_int uid @ '' has already voted on post ''
                           @ str_int pid) []), d))
          \<and> (pid \<in> set (map p_id (posts d)) \<and> dir v = 1 \<and> row \<notin> set (votes d) \<longrightarrow>
               vote v d current_user =
                 (Inr ''successfully added vote'', d\<lparr>votes := votes d @ [row]\<rparr>))
          \<and> (pid \<in> set (map p_id (posts d)) \<and> dir v = 0 \<and> row \<notin> set (votes d) \<longrightarrow>
               vote v d current_user = (Inl (HTTPException 404 ''vote does not exist'' []), d))
          \<and> (pid \<in> set (map p_id (posts d)) \<and> dir v = 0 \<and> row \<in> set (votes d) \<longrightarrow>
               vote v d current_user =
                 (Inr ''successfully deleted vote'', d\<lparr>votes := removeAll row (votes d)\<rparr>))"
proof -
  define pid where "pid = vi_post_id v"
  define uid where "uid = u_id current_user"
  define row where "row = \<lparr>user_id = uid, post_id = pid\<rparr>"
  have uid_in: "uid \<in> set (map u_id (users d))"
    using auth by (simp add: uid_def)
  have goal: "(pid \<notin> set (map p_id (posts d)) \<longrightarrow>
               vote v d current_user =
                 (Inl (HTTPException 404
                        (''Post with id '' @ str_int pid @ '' does not exist'') []), d))
          \<and> (pid \<in> set (map p_id (posts d)) \<and> dir v = 1 \<and> row \<in> set (votes d) \<longrightarrow>
               vote v d current_user =
                 (Inl (HTTPException 409
                        (''user '' @ str_int uid @ '' has already voted on post ''
                           @ str_int pid) []), d))
          \<and> (pid \<in> set (map p_id (posts d)) \<and> dir v = 1 \<and> row \<notin> set (votes d) \<longrightarrow>
               vote v d current_user =
                 (Inr ''successfully added vote'', d\<lparr>votes := votes d @ [row]\<rparr>))
          \<and> (pid \<in> set (map p_id (posts d)) \<and> dir v = 0 \<and> row \<notin> set (votes d) \<longrightarrow>
               vote v d current_user = (Inl (HTTPException 404 ''vote does not exist'' []), d))
          \<and> (pid \<in> set (map p_id (posts d)) \<and> dir v = 0 \<and> row \<in> set (votes d) \<longrightarrow>
               vote v d current_user =
                 (Inr ''successfully deleted vote'', d\<lparr>votes := removeAll row (votes d)\<rparr>))"
  proof (cases "pid \<in> set (map p_id (posts d))")
    case False
    then have "find (\<lambda>p. p_id p = vi_post_id v) (posts d) = None"
      by (simp add: find_post_None pid_def)
    then show ?thesis using False by (simp add: vote_def pid_def)
  next
    case exists: True
    then obtain post where post: "find (\<lambda>p. p_id p = vi_post_id v) (posts d) = Some post"
      using find_post_Some unfolding pid_def by blast
    show ?thesis
    proof (cases "row \<in> set (votes d)")
      case False
      then have fv: "find (\<lambda>r. post_id r = vi_post_id v \<and> user_id r = u_id current_user)
                       (votes d) = None"
        by (simp add: find_vote_None row_def pid_def uid_def)
      have nk: "vote_key row \<notin> set (map vote_key (votes d))"
      proof
        assume "vote_key row \<in> set (map vote_key (votes d))"
        then obtain r where r: "r \<in> set (votes d)" "vote_key r = vote_key row" by auto
        with False show False by (simp add: vote_key_eq_iff)
      qed
      have ins: "insert_vote row d = (Inr (), d\<lparr>votes := votes d @ [row]\<rparr>)"
        using nk uid_in exists by (simp add: insert_vote_def row_def)
      have row': "\<lparr>user_id = u_id current_user, post_id = vi_post_id v\<rparr> = row"
        by (simp add: row_def pid_def uid_def)
      show ?thesis using False exists post fv ins
        by (simp add: vote_def Let_def row')
    next
      case True
      then obtain r where fv: "find (\<lambda>r. post_id r = vi_post_id v \<and> user_id r = u_id current_user)
                                 (votes d) = Some r"
        using find_vote_None[of pid uid "votes d"] by (auto simp: row_def pid_def uid_def)
      have del: "filter (\<lambda>r. \<not> (post_id r = vi_post_id v \<and> user_id r = u_id current_user)) (votes d)
                   = removeAll row (votes d)"
        by (simp only: filter_vote_removeAll row_def pid_def uid_def)
      have "vote v d current_user =
              (if dir v = 1
               then (Inl (HTTPException 409
                       (''user '' @ str_int uid @ '' has already voted on post ''
                          @ str_int pid) []), d)
               else (Inr ''successfully deleted vote'', d\<lparr>votes := removeAll row (votes d)\<rparr>))"
        unfolding vote_def Let_def post fv del pid_def uid_def by simp
      then show ?thesis using True exists by simp
    qed
  qed
  then show ?thesis
    unfolding Let_def pid_def uid_def row_def .
qed

theorem vote_cases_witness:
  "alice \<in> set (users db0) \<and> bob \<in> set (users db0)
   \<and> vote \<lparr>vi_post_id = 9, dir = 1\<rparr> db0 alice =
        (Inl (HTTPException 404 ''Post with id 9 does not exist'' []), db0)
   \<and> vote \<lparr>vi_post_id = 1, dir = 1\<rparr> db0 bob =
        (Inl (HTTPException 409 ''user 2 has already voted on post 1'' []), db0)
   \<and> vote \<lparr>vi_post_id = 1, dir = 1\<rparr> db0 alice =
        (Inr ''successfully added vote'',
         db0\<lparr>votes := [\<lparr>user_id = 2, post_id = 1\<rparr>, \<lparr>user_id = 1, post_id = 1\<rparr>]\<rparr>)
   \<and> vote \<lparr>vi_post_id = 1, dir = 0\<rparr> db0 alice =
        (Inl (HTTPException 404 ''vote does not exist'' []), db0)
   \<and> vote \<lparr>vi_post_id = 1, dir = 0\<rparr> db0 bob =
        (Inr ''successfully deleted vote'', db0\<lparr>votes := []\<rparr>)"
proof -
  have a: "alice \<in> set (users db0)" and b: "bob \<in> set (users db0)"
    by (simp_all add: db0_def)
  have s: "str_int 9 = ''9''" "str_int 2 = ''2''" "str_int 1 = ''1''"
    by code_simp+
  have v: "votes db0 = [\<lparr>user_id = 2, post_id = 1\<rparr>]" and p: "map p_id (posts db0) = [1, 2]"
    by (simp_all add: db0_def post1_def post2_def)
  have ua: "u_id alice = 1" and ub: "u_id bob = 2"
    by (simp_all add: alice_def bob_def)
  show ?thesis
    using vote_cases [OF a, of "\<lparr>vi_post_id = 9, dir = 1\<rparr>"]
      vote_cases [OF b, of "\<lparr>vi_post_id = 1, dir = 1\<rparr>"]
      vote_cases [OF a, of "\<lparr>vi_post_id = 1, dir = 1\<rparr>"]
      vote_cases [OF a, of "\<lparr>vi_post_id = 1, dir = 0\<rparr>"]
      vote_cases [OF b, of "\<lparr>vi_post_id = 1, dir = 0\<rparr>"]
    by (simp add: Let_def a b s v p ua ub)
qed

lemma find_post_unique:
  "distinct (map p_id ps) \<Longrightarrow> p \<in> set ps \<Longrightarrow> find (\<lambda>q. p_id q = p_id p) ps = Some p"
  by (induction ps) force+

lemma find_updated:
  "find (\<lambda>q. p_id q = i) ps = Some p \<Longrightarrow>
   find (\<lambda>q. p_id q = i) (map (\<lambda>q. if p_id q = i then set_fields pc q else q) ps)
   = Some (set_fields pc p)"
  by (induction ps) (auto simp: set_fields_def split: if_splits)

lemma filter_post_removeAll:
  assumes "distinct (map p_id ps)" and "p \<in> set ps"
  shows "filter (\<lambda>q. p_id q \<noteq> p_id p) ps = removeAll p ps"
proof -
  have inj: "inj_on p_id (set ps)"
    using assms(1) by (simp add: distinct_map)
  have "filter (\<lambda>q. p_id q \<noteq> p_id p) ps = filter (\<lambda>q. p \<noteq> q) ps"
  proof (rule filter_cong [OF refl])
    fix q assume "q \<in> set ps"
    then show "(p_id q \<noteq> p_id p) = (p \<noteq> q)"
      using inj assms(2) by (auto dest: inj_onD)
  qed
  then show ?thesis
    by (simp only: removeAll_filter_not_eq)
qed

section \<open>Changing and deleting a post\<close>

text \<open>
  C2, as the code has it. Under the primary key of \<open>posts\<close>, for a payload that the schema
  accepts: an update or a delete of an id that no post has fails with 404; of a post
  whose \<open>owner_id\<close> is not the caller's id it fails with 403, whatever the payload holds; by
  the owner, the update with a title and a content without NUL replaces title, content
  and published and returns the updated post, the update with a NUL ends in the error
  of the driver, and the delete removes the post (and the votes on it) and returns the
  empty 204 response. Every failure leaves the database unchanged. At the route, for an
  authenticated caller, a payload that the schema refuses is answered 422 before any of
  this, and the other answers are those of the handlers.
\<close>

theorem update_delete_cases:
  assumes pk: "distinct (map p_id (posts d))"
  shows "(i \<notin> set (map p_id (posts d)) \<longrightarrow>
            update_post i pc d cu = (Inl (not_found i), d)
          \<and> delete_post i d cu = (Inl (not_found i), d))
       \<and> (\<forall>p \<in> set (posts d). p_id p = i \<longrightarrow>
            (owner_id p \<noteq> u_id cu \<longrightarrow>
               update_post i pc d cu = (Inl forbidden, d)
             \<and> delete_post i d cu = (Inl forbidden, d))
          \<and> (owner_id p = u_id cu \<longrightarrow>
               (\<not> holds_nul (pc_title pc) \<and> \<not> holds_nul (pc_content pc) \<longrightarrow>
                  update_post i pc d cu =
                    (Inr (Some (p\<lparr>title := pc_title pc, content := pc_content pc,
                                  published := pc_published pc\<rparr>)),
                     d\<lparr>posts := map (\<lambda>q. if p_id q = i
                                         then q\<lparr>title := pc_title pc, content := pc_content pc,
                                                published := pc_published pc\<rparr>
                                         else q) (posts d)\<rparr>))
             \<and> (holds_nul (pc_title pc) \<or> holds_nul (pc_content pc) \<longrightarrow>
                  update_post i pc d cu = (Inl ValueError, d))
             \<and> delete_post i d cu =
                 (Inr (), d\<lparr>posts := removeAll p (posts d),
                            votes := filter (\<lambda>v. post_id v \<noteq> i) (votes d)\<rparr>)
             \<and> i \<notin> set (map p_id (posts (snd (delete_post i d cu))))))
       \<and> (get_current_user cfg now tok d = Inr cu \<longrightarrow>
            handle cfg now (PutPost tok i Refused) d = (Inl RequestValidationError, d)
          \<and> (\<forall>e d'. update_post i pc d cu = (Inl e, d') \<longrightarrow>
                handle cfg now (PutPost tok i (Accepted pc)) d = (Inl e, d'))
          \<and> (\<forall>p' d'. update_post i pc d cu = (Inr (Some p'), d') \<longrightarrow>
                handle cfg now (PutPost tok i (Accepted pc)) d = (Inr (PostBody p'), d'))
          \<and> handle cfg now (DeletePost tok i) d
              = (map_sum (\<lambda>e. e) (\<lambda>u. NoContent) (fst (delete_post i d cu)),
                 snd (delete_post i d cu)))"
proof (intro conjI impI ballI allI)
  assume "i \<notin> set (map p_id (posts d))"
  then have f: "find (\<lambda>p. p_id p = i) (posts d) = None"
    by (simp add: find_post_None)
  show "update_post i pc d cu = (Inl (not_found i), d)"
    by (simp add: update_post_def f not_found_def)
  show "delete_post i d cu = (Inl (not_found i), d)"
    by (simp add: delete_post_def f not_found_def)
next
  fix p assume p: "p \<in> set (posts d)" "p_id p = i"
  then have f: "find (\<lambda>q. p_id q = i) (posts d) = Some p"
    using find_post_unique [OF pk] by blast
  {
    assume "owner_id p \<noteq> u_id cu"
    then show "update_post i pc d cu = (Inl forbidden, d)"
      by (simp add: update_post_def f forbidden_def)
  next
    assume "owner_id p \<noteq> u_id cu"
    then show "delete_post i d cu = (Inl forbidden, d)"
      by (simp add: delete_post_def f forbidden_def)
  next
    assume own: "owner_id p = u_id cu"
      and ok: "\<not> holds_nul (pc_title pc) \<and> \<not> holds_nul (pc_content pc)"
    have sf: "set_fields pc = (\<lambda>q. q\<lparr>title := pc_title pc, content := pc_content pc,
                                       published := pc_published pc\<rparr>)"
      by (simp add: set_fields_def fun_eq_iff)
    show "update_post i pc d cu =
            (Inr (Some (p\<lparr>title := pc_title pc, content := pc_content pc,
                          published := pc_published pc\<rparr>)),
             d\<lparr>posts := map (\<lambda>q. if p_id q = i
                                 then q\<lparr>title := pc_title pc, content := pc_content pc,
                                        published := pc_published pc\<rparr>
                                 else q) (posts d)\<rparr>)"
      using own ok find_updated [OF f, of pc]
      by (simp add: update_post_def f update_posts_where_id_def sf)
  next
    assume own: "owner_id p = u_id cu"
      and bad: "holds_nul (pc_title pc) \<or> holds_nul (pc_content pc)"
    then show "update_post i pc d cu = (Inl ValueError, d)"
      by (simp add: update_post_def f update_posts_where_id_def)
  next
    assume own: "owner_id p = u_id cu"
    have del: "delete_post i d cu = (Inr (), delete_posts_where_id i d)"
      using own by (simp add: delete_post_def f)
    show "delete_post i d cu =
            (Inr (), d\<lparr>posts := removeAll p (posts d),
                       votes := filter (\<lambda>v. post_id v \<noteq> i) (votes d)\<rparr>)"
      using filter_post_removeAll [OF pk p(1)] p(2)
      by (simp add: del delete_posts_where_id_def)
    show "i \<notin> set (map p_id (posts (snd (delete_post i d cu))))"
      by (auto simp: del delete_posts_where_id_def)
  }
next
  assume au: "get_current_user cfg now tok d = Inr cu"
  show "handle cfg now (PutPost tok i Refused) d = (Inl RequestValidationError, d)"
    by (simp add: handle_def protected_def validated_def au)
  show "handle cfg now (DeletePost tok i) d
          = (map_sum (\<lambda>e. e) (\<lambda>u. NoContent) (fst (delete_post i d cu)),
             snd (delete_post i d cu))"
    by (simp add: handle_def protected_def respond_def au)
  {
    fix e d' assume "update_post i pc d cu = (Inl e, d')"
    then show "handle cfg now (PutPost tok i (Accepted pc)) d = (Inl e, d')"
      by (simp add: handle_def protected_def validated_def au)
  next
    fix p' d' assume "update_post i pc d cu = (Inr (Some p'), d')"
    then show "handle cfg now (PutPost tok i (Accepted pc)) d = (Inr (PostBody p'), d')"
      by (simp add: handle_def protected_def validated_def au)
  }
qed

text \<open>
  Forbidden for a caller who is not the owner, whatever the payload, as the specification
  has it, fails: Bob's update of Alice's post with a body that the schema refuses, such
  as \<^verbatim>\<open>{}\<close>, is answered 422. Success for the owner with any payload fails too: with a
  NUL in the title Alice's update of her post ends in the error of the driver.
\<close>

theorem update_refused_payload_counterexample:
  "post1 \<in> set (posts db0) \<and> p_id post1 = 1 \<and> owner_id post1 \<noteq> u_id bob
   \<and> get_current_user cfg0 3000000 bob_token db0 = Inr bob
   \<and> handle cfg0 3000000 (PutPost bob_token 1 Refused) db0 = (Inl RequestValidationError, db0)
   \<and> RequestValidationError \<noteq> forbidden
   \<and> owner_id post1 = u_id alice
   \<and> update_post 1 payload_nul db0 alice = (Inl ValueError, db0)"
proof -
  have au: "get_current_user cfg0 3000000 bob_token db0 = Inr bob"
    by (simp add: get_current_user_def verify_access_token_def jwt_decode_def bob_token_def
        create_access_token_def jwt_encode_def cfg0_def timegm_utctimetuple_def
        timedelta_minutes_def Let_def db0_def alice_def bob_def)
  have h: "handle cfg0 3000000 (PutPost bob_token 1 Refused) db0
             = (Inl RequestValidationError, db0)"
    by (simp add: handle_def protected_def validated_def au)
  have u: "update_post 1 payload_nul db0 alice = (Inl ValueError, db0)"
    by (simp add: update_post_def update_posts_where_id_def holds_nul_def payload_nul_def
        db0_def post1_def alice_def)
  show ?thesis
    using au h u
    by (simp add: db0_def post1_def alice_def bob_def forbidden_def)
qed

theorem update_delete_cases_witness:
  "distinct (map p_id (posts db0))
   \<and> update_post 9 payload0 db0 alice = (Inl (not_found 9), db0)
   \<and> delete_post 9 db0 alice = (Inl (not_found 9), db0)
   \<and> update_post 2 payload0 db0 alice = (Inl forbidden, db0)
   \<and> update_post 2 payload_nul db0 alice = (Inl forbidden, db0)
   \<and> delete_post 2 db0 alice = (Inl forbidden, db0)
   \<and> update_post 1 payload0 db0 alice =
        (Inr (Some post1_updated), db0\<lparr>posts := [post1_updated, post2]\<rparr>)
   \<and> update_post 1 payload_nul db0 alice = (Inl ValueError, db0)
   \<and> delete_post 1 db0 alice = (Inr (), db0\<lparr>posts := [post2], votes := []\<rparr>)
   \<and> get_current_user cfg0 3000000 alice_token db0 = Inr alice
   \<and> handle cfg0 3000000 (PutPost alice_token 2 Refused) db0 = (Inl RequestValidationError, db0)
   \<and> handle cfg0 3000000 (PutPost alice_token 2 (Accepted payload0)) db0 = (Inl forbidden, db0)
   \<and> handle cfg0 3000000 (PutPost alice_token 1 (Accepted payload0)) db0
        = (Inr (PostBody post1_updated), db0\<lparr>posts := [post1_updated, post2]\<rparr>)
   \<and> handle cfg0 3000000 (DeletePost alice_token 1) db0
        = (Inr NoContent, db0\<lparr>posts := [post2], votes := []\<rparr>)"
proof -
  have pk: "distinct (map p_id (posts db0))"
    by (simp add: db0_def post1_def post2_def)
  have ps: "posts db0 = [post1, post2]" and vs: "votes db0 = [\<lparr>user_id = 2, post_id = 1\<rparr>]"
    by (simp_all add: db0_def)
  have ids: "p_id post1 = 1" "p_id post2 = 2" "owner_id post1 = 1" "owner_id post2 = 2"
    "u_id alice = 1"
    by (simp_all add: post1_def post2_def alice_def)
  have up: "post1\<lparr>title := pc_title payload0, content := pc_content payload0,
                   published := pc_published payload0\<rparr> = post1_updated"
    by (simp add: post1_def post1_updated_def payload0_def)
  have nn: "\<not> holds_nul (pc_title payload0)" "\<not> holds_nul (pc_content payload0)"
    "holds_nul (pc_title payload_nul)"
    by (simp_all add: holds_nul_def payload0_def payload_nul_def nul_def)
  have ne: "post1 \<noteq> post2"
    by (simp add: post1_def post2_def)
  have au: "get_current_user cfg0 3000000 alice_token db0 = Inr alice"
    by (simp add: get_current_user_def verify_access_token_def jwt_decode_def alice_token_def
        create_access_token_def jwt_encode_def cfg0_def timegm_utctimetuple_def
        timedelta_minutes_def Let_def db0_def alice_def)
  note th = update_delete_cases [OF pk, where cu = alice and cfg = cfg0 and now = 3000000
      and tok = alice_token]
  have hs: "update_post 9 payload0 db0 alice = (Inl (not_found 9), db0)"
    "delete_post 9 db0 alice = (Inl (not_found 9), db0)"
    "update_post 2 payload0 db0 alice = (Inl forbidden, db0)"
    "update_post 2 payload_nul db0 alice = (Inl forbidden, db0)"
    "delete_post 2 db0 alice = (Inl forbidden, db0)"
    "update_post 1 payload0 db0 alice =
        (Inr (Some post1_updated), db0\<lparr>posts := [post1_updated, post2]\<rparr>)"
    "update_post 1 payload_nul db0 alice = (Inl ValueError, db0)"
    "delete_post 1 db0 alice = (Inr (), db0\<lparr>posts := [post2], votes := []\<rparr>)"
    using th [of 9 payload0] th [of 2 payload0] th [of 2 payload_nul] th [of 1 payload0]
      th [of 1 payload_nul]
    by (simp_all add: ps vs ids up nn ne)
  have rs: "handle cfg0 3000000 (PutPost alice_token 2 Refused) db0
              = (Inl RequestValidationError, db0)"
    "handle cfg0 3000000 (PutPost alice_token 2 (Accepted payload0)) db0 = (Inl forbidden, db0)"
    "handle cfg0 3000000 (PutPost alice_token 1 (Accepted payload0)) db0
        = (Inr (PostBody post1_updated), db0\<lparr>posts := [post1_updated, post2]\<rparr>)"
    "handle cfg0 3000000 (DeletePost alice_token 1) db0
        = (Inr NoContent, db0\<lparr>posts := [post2], votes := []\<rparr>)"
    using th [of 2 payload0] th [of 1 payload0] au hs
    by simp_all
  from pk hs au rs show ?thesis
    by simp
qed

section \<open>Every request is a step of the store\<close>

lemma insert_user_step: "store_step d (snd (insert_user em pw now d))"
proof (cases "int4_max < users_id_seq d")
  case True
  then show ?thesis
    by (simp add: insert_user_def Let_def step_none)
next
  case False
  show ?thesis
  proof (cases "users_id_seq d \<in> set (map u_id (users d)) \<or> em \<in> set (map email (users d))")
    case True
    then show ?thesis
      using False step_users_seq [of d] by (simp add: insert_user_def Let_def)
  next
    case False
    then show ?thesis
      using \<open>\<not> int4_max < users_id_seq d\<close> step_insert_user
        [of "\<lparr>u_id = users_id_seq d, email = em, password = pw, u_created_at = now\<rparr>" d]
      by (simp add: insert_user_def Let_def)
  qed
qed

lemma insert_post_step: "store_step d (snd (insert_post owner pc now d))"
proof (cases "holds_nul (pc_title pc) \<or> holds_nul (pc_content pc) \<or> int4_max < posts_id_seq d")
  case True
  then show ?thesis
    by (auto simp: insert_post_def Let_def step_none)
next
  case ok: False
  show ?thesis
  proof (cases "posts_id_seq d \<in> set (map p_id (posts d)) \<or> owner \<notin> set (map u_id (users d))")
    case True
    then show ?thesis
      using ok step_posts_seq [of d] by (simp add: insert_post_def Let_def)
  next
    case False
    then show ?thesis
      using ok step_insert_post
        [of "\<lparr>p_id = posts_id_seq d, title = pc_title pc, content = pc_content pc,
              published = pc_published pc, p_created_at = now, owner_id = owner\<rparr>" d]
      by (simp add: insert_post_def Let_def)
  qed
qed

lemma insert_vote_step: "store_step d (snd (insert_vote v d))"
  unfolding insert_vote_def
  by (auto intro: step_none step_insert_vote)

lemma vote_step: "store_step d (snd (vote v d cu))"
  using insert_vote_step [of d "\<lparr>user_id = u_id cu, post_id = vi_post_id v\<rparr>"]
  unfolding vote_def Let_def
  by (auto intro: step_none step_delete_votes split: option.splits prod.splits sum.splits)

lemma delete_post_step: "store_step d (snd (delete_post i d cu))"
  unfolding delete_post_def
  by (auto intro: step_none step_delete_posts split: option.splits)

lemma update_post_step: "store_step d (snd (update_post i pc d cu))"
  unfolding update_post_def update_posts_where_id_def
  by (auto intro: step_none step_update_posts split: option.splits)

lemma validated_step:
  "(\<And>x. store_step d (snd (handler x))) \<Longrightarrow> store_step d (snd (validated b d handler))"
  unfolding validated_def
  by (auto intro: step_none split: body.splits)

lemma snd_respond: "snd (respond body r) = snd r"
  by (simp add: respond_def)

lemma protected_step:
  "(\<And>cu. store_step d (snd (handler cu))) \<Longrightarrow> store_step d (snd (protected cfg now tok d handler))"
  unfolding protected_def
  by (auto intro: step_none split: sum.splits)

lemma handle_step: "store_step d (snd (handle cfg now req d))"
proof (cases req)
  case (Login vp username pw)
  then show ?thesis by (simp add: handle_def snd_respond step_none)
next
  case (PostUsers h b)
  then show ?thesis
    by (simp add: handle_def)
      (rule validated_step, simp add: snd_respond create_user_def Let_def insert_user_step)
next
  case (GetUser i)
  then show ?thesis by (simp add: handle_def snd_respond step_none)
next
  case (GetPosts tok l k s)
  then show ?thesis
    by (simp add: handle_def) (rule protected_step, simp add: snd_respond step_none)
next
  case (PostPosts tok b)
  then show ?thesis
    by (simp add: handle_def)
      (rule protected_step, rule validated_step,
        simp add: snd_respond create_post_def insert_post_step)
next
  case (GetPost tok i)
  then show ?thesis
    by (simp add: handle_def) (rule protected_step, simp add: snd_respond step_none)
next
  case (DeletePost tok i)
  then show ?thesis
    by (simp add: handle_def) (rule protected_step, simp add: snd_respond delete_post_step)
next
  case (PutPost tok i b)
  have "\<And>pc cu. snd (case update_post i pc d cu of
              (Inl e, d') \<Rightarrow> (Inl e, d')
            | (Inr None, d') \<Rightarrow> (Inl ResponseValidationError, d')
            | (Inr (Some p), d') \<Rightarrow> (Inr (PostBody p), d')) = snd (update_post i pc d cu)"
    by (auto split: prod.splits sum.splits option.splits)
  with PutPost show ?thesis
    by (simp add: handle_def)
      (rule protected_step, rule validated_step, simp add: update_post_step)
next
  case (PostVotes tok b)
  then show ?thesis
    by (simp add: handle_def)
      (rule protected_step, rule validated_step, simp add: snd_respond vote_step step_none)
qed

section \<open>Invariants of the store\<close>

lemma set_fields_keeps:
  "p_id (set_fields pc p) = p_id p" "owner_id (set_fields pc p) = owner_id p"
  "p_created_at (set_fields pc p) = p_created_at p"
  by (simp_all add: set_fields_def)

lemma step_constraints: "store_step d d' \<Longrightarrow> constraints d \<Longrightarrow> constraints d'"
proof (induction rule: store_step.induct)
  case (step_delete_votes d P)
  then show ?case
    by (auto simp: constraints_def distinct_map_filter)
next
  case (step_delete_posts d i)
  then show ?case
    by (auto simp: constraints_def delete_posts_where_id_def distinct_map_filter)
next
  case (step_update_posts d i pc)
  let ?f = "\<lambda>p. if p_id p = i then set_fields pc p else p"
  have ids: "map p_id (map ?f (posts d)) = map p_id (posts d)"
    by (simp add: set_fields_keeps comp_def if_distrib cong: if_cong)
  have own: "\<forall>p \<in> set (map ?f (posts d)). owner_id p \<in> set (map u_id (users d))"
    using step_update_posts by (auto simp: constraints_def set_fields_keeps)
  from step_update_posts own ids show ?case
    by (simp add: constraints_def del: set_map map_map)
qed (auto simp: constraints_def)

lemma step_sequences: "store_step d d' \<Longrightarrow> sequences_ahead d \<Longrightarrow> sequences_ahead d'"
proof (induction rule: store_step.induct)
  case (step_update_posts d i pc)
  then show ?case
    by (auto simp: sequences_ahead_def set_fields_keeps)
qed (auto simp: sequences_ahead_def delete_posts_where_id_def)

lemma step_votes_distinct:
  "store_step d d' \<Longrightarrow> distinct (map vote_key (votes d)) \<Longrightarrow> distinct (map vote_key (votes d'))"
  by (induction rule: store_step.induct)
    (auto simp: delete_posts_where_id_def distinct_map_filter)

lemma step_owner:
  assumes "store_step d d'" and "distinct (map p_id (posts d))"
    and "q \<in> set (posts d)" and "q' \<in> set (posts d')" and "p_id q' = p_id q"
  shows "owner_id q' = owner_id q"
  using assms
proof (induction rule: store_step.induct)
  case (step_insert_post p d)
  from step_insert_post.prems(2) step_insert_post.hyps(2)
  have "p_id q \<noteq> p_id p" by (metis image_eqI set_map)
  with step_insert_post show ?case
    by (auto simp: distinct_map dest: inj_onD)
next
  case (step_delete_posts d i)
  then show ?case
    by (auto simp: delete_posts_where_id_def distinct_map dest: inj_onD)
next
  case (step_update_posts d i pc)
  then show ?case
    by (auto simp: set_fields_keeps distinct_map dest: inj_onD split: if_splits)
qed (auto simp: distinct_map dest: inj_onD)

lemma reachable_invariants: "reachable cfg d \<Longrightarrow> constraints d \<and> sequences_ahead d"
proof (induction rule: reachable.induct)
  case reachable_empty
  show ?case by (simp add: constraints_def sequences_ahead_def empty_db_def)
next
  case (reachable_handle d now req)
  then show ?case
    using handle_step [of d cfg now req] step_constraints step_sequences by blast
qed

section \<open>A run of the service\<close>

text \<open>Alice registers, writes a post and votes for it: the states \<open>db_a\<close>, \<open>db_b\<close>, \<open>db_c\<close>.\<close>

lemma step_a: "snd (handle cfg0 1000000 register_alice empty_db) = db_a"
  by (simp add: handle_def register_alice_def validated_def respond_def create_user_def
      insert_user_def int4_max_def empty_db_def db_a_def alice_def hash0_def Let_def)

lemma auth_alice:
  "get_current_user cfg0 3000000 alice_token db_a = Inr alice"
  "get_current_user cfg0 4000000 alice_token db_b = Inr alice"
  "get_current_user cfg0 4000000 alice_token db_c = Inr alice"
  by (simp_all add: get_current_user_def verify_access_token_def jwt_decode_def alice_token_def
      create_access_token_def jwt_encode_def cfg0_def timegm_utctimetuple_def
      timedelta_minutes_def Let_def db_a_def db_b_def db_c_def alice_def)

lemma step_b:
  "snd (handle cfg0 3000000
          (PostPosts alice_token
             (Accepted \<lparr>pc_title = ''abc'', pc_content = ''cba'', pc_published = True\<rparr>))
          db_a) = db_b"
  by (simp add: handle_def protected_def validated_def auth_alice respond_def create_post_def
      insert_post_def holds_nul_def nul_def int4_max_def Let_def)
    (simp add: db_a_def db_b_def alice_def post1_def)

lemma step_c:
  "snd (handle cfg0 4000000 (PostVotes alice_token (Accepted \<lparr>vi_post_id = 1, dir = 1\<rparr>))
          db_b) = db_c"
  by (simp add: handle_def protected_def validated_def auth_alice respond_def vote_def
      insert_vote_def Let_def vote_key_def Vote_valid_def)
    (simp add: db_b_def db_c_def alice_def post1_def vote_key_def insert_vote_def)

lemma reachable_db_c: "reachable cfg0 db_c"
proof -
  have "reachable cfg0 db_a"
    using reachable_handle [OF reachable_empty, of cfg0 1000000 register_alice]
    by (simp only: step_a)
  then have "reachable cfg0 db_b"
    using reachable_handle [of cfg0 db_a 3000000
        "PostPosts alice_token
           (Accepted \<lparr>pc_title = ''abc'', pc_content = ''cba'', pc_published = True\<rparr>)"]
    by (simp only: step_b)
  then show ?thesis
    using reachable_handle [of cfg0 db_b 4000000
        "PostVotes alice_token (Accepted \<lparr>vi_post_id = 1, dir = 1\<rparr>)"]
    by (simp only: step_c)
qed

section \<open>One vote per user and post\<close>

lemma distinct_keys_iff_count:
  "distinct (map vote_key vs) \<longleftrightarrow>
   (\<forall>u p. length (filter (\<lambda>v. user_id v = u \<and> post_id v = p) vs) \<le> 1)"
proof (induction vs)
  case Nil
  show ?case by simp
next
  case (Cons x xs)
  have none: "vote_key x \<notin> set (map vote_key xs) \<longleftrightarrow>
              filter (\<lambda>v. user_id v = user_id x \<and> post_id v = post_id x) xs = []"
    by (induction xs) (auto simp: vote_key_def)
  show ?case
  proof
    assume d: "distinct (map vote_key (x # xs))"
    then have ih: "\<forall>u p. length (filter (\<lambda>v. user_id v = u \<and> post_id v = p) xs) \<le> 1"
      using Cons.IH by simp
    from d have e: "filter (\<lambda>v. user_id v = user_id x \<and> post_id v = post_id x) xs = []"
      using none by simp
    show "\<forall>u p. length (filter (\<lambda>v. user_id v = u \<and> post_id v = p) (x # xs)) \<le> 1"
      using ih e by auto
  next
    assume c: "\<forall>u p. length (filter (\<lambda>v. user_id v = u \<and> post_id v = p) (x # xs)) \<le> 1"
    have "length (filter (\<lambda>v. user_id v = u \<and> post_id v = p) xs) \<le> 1" for u p
      using c [rule_format, of u p] by (simp split: if_splits)
    then have dx: "distinct (map vote_key xs)"
      using Cons.IH by simp
    have "filter (\<lambda>v. user_id v = user_id x \<and> post_id v = post_id x) xs = []"
      using c [rule_format, of "user_id x" "post_id x"] by simp
    then show "distinct (map vote_key (x # xs))"
      using dx none by simp
  qed
qed

lemma vote_no_integrity_error:
  assumes "cu \<in> set (users d)"
  shows "fst (vote vi d cu) \<noteq> Inl IntegrityError"
proof (cases "find (\<lambda>p. p_id p = vi_post_id vi) (posts d)")
  case None
  then show ?thesis by (simp add: vote_def)
next
  case (Some post)
  then have ex: "vi_post_id vi \<in> set (map p_id (posts d))"
    using find_post_None [of "vi_post_id vi" "posts d"] by simp
  show ?thesis
  proof (cases "find (\<lambda>r. post_id r = vi_post_id vi \<and> user_id r = u_id cu) (votes d)")
    case None
    then have "\<lparr>user_id = u_id cu, post_id = vi_post_id vi\<rparr> \<notin> set (votes d)"
      by (simp add: find_vote_None)
    then have "vote_key \<lparr>user_id = u_id cu, post_id = vi_post_id vi\<rparr> \<notin> set (map vote_key (votes d))"
      by (auto simp: vote_key_eq_iff)
    then show ?thesis
      using Some None ex assms by (simp add: vote_def Let_def insert_vote_def)
  next
    case (Some r)
    then show ?thesis
      using \<open>find (\<lambda>p. p_id p = vi_post_id vi) (posts d) = Some post\<close>
      by (simp add: vote_def Let_def)
  qed
qed

text \<open>
  C3. \<open>one_vote_per_pair\<close> says that every pair of user and post has at most one row of
  \<open>votes\<close>. It holds in every reachable state and every request preserves it, whatever
  the request and whoever sends it. The store keeps it by itself: an insert preserves it
  and an insert of a key that is present is rejected with \<^verbatim>\<open>IntegrityError\<close>. The check in
  \<open>vote\<close> comes first: for an authenticated caller \<open>vote\<close> never ends in that error.
\<close>

theorem vote_uniqueness_invariant:
  "(one_vote_per_pair d \<longleftrightarrow> (\<forall>u p. length (votes_of_pair d u p) \<le> 1))
   \<and> (reachable cfg d \<longrightarrow> one_vote_per_pair d)
   \<and> (one_vote_per_pair d \<longrightarrow> one_vote_per_pair (snd (handle cfg now req d)))
   \<and> (one_vote_per_pair d \<longrightarrow> one_vote_per_pair (snd (insert_vote v d)))
   \<and> (vote_key v \<in> set (map vote_key (votes d)) \<longrightarrow> insert_vote v d = (Inl IntegrityError, d))
   \<and> (cu \<in> set (users d) \<longrightarrow> fst (vote vi d cu) \<noteq> Inl IntegrityError)"
proof (intro conjI impI)
  show "one_vote_per_pair d \<longleftrightarrow> (\<forall>u p. length (votes_of_pair d u p) \<le> 1)"
    by (simp add: one_vote_per_pair_def votes_of_pair_def distinct_keys_iff_count)
  show "one_vote_per_pair d" if "reachable cfg d"
    using reachable_invariants [OF that] by (simp add: constraints_def one_vote_per_pair_def)
  show "one_vote_per_pair (snd (handle cfg now req d))" if "one_vote_per_pair d"
    using step_votes_distinct [OF handle_step] that by (simp add: one_vote_per_pair_def)
  show "one_vote_per_pair (snd (insert_vote v d))" if "one_vote_per_pair d"
    using step_votes_distinct [OF insert_vote_step] that by (simp add: one_vote_per_pair_def)
  show "insert_vote v d = (Inl IntegrityError, d)"
    if "vote_key v \<in> set (map vote_key (votes d))"
    using that by (simp add: insert_vote_def)
  show "fst (vote vi d cu) \<noteq> Inl IntegrityError" if "cu \<in> set (users d)"
    using that by (rule vote_no_integrity_error)
qed


theorem vote_uniqueness_invariant_witness:
  "reachable cfg0 db_c \<and> one_vote_per_pair db_c
   \<and> length (votes_of_pair db_c 1 1) = 1
   \<and> one_vote_per_pair (snd (handle cfg0 4000000 (PostVotes alice_token (Accepted \<lparr>vi_post_id = 1, dir = 1\<rparr>)) db_c))
   \<and> one_vote_per_pair (snd (insert_vote \<lparr>user_id = 1, post_id = 1\<rparr> db_c))
   \<and> vote_key \<lparr>user_id = 1, post_id = 1\<rparr> \<in> set (map vote_key (votes db_c))
   \<and> insert_vote \<lparr>user_id = 1, post_id = 1\<rparr> db_c = (Inl IntegrityError, db_c)
   \<and> alice \<in> set (users db_c)
   \<and> fst (vote \<lparr>vi_post_id = 1, dir = 1\<rparr> db_c alice) \<noteq> Inl IntegrityError"
proof -
  have k: "vote_key \<lparr>user_id = 1, post_id = 1\<rparr> \<in> set (map vote_key (votes db_c))"
    and a: "alice \<in> set (users db_c)"
    and n: "length (votes_of_pair db_c 1 1) = 1"
    by (simp_all add: db_c_def vote_key_def votes_of_pair_def)
  note th = vote_uniqueness_invariant
      [of db_c cfg0 4000000 "PostVotes alice_token (Accepted \<lparr>vi_post_id = 1, dir = 1\<rparr>)"
        "\<lparr>user_id = 1, post_id = 1\<rparr>" alice "\<lparr>vi_post_id = 1, dir = 1\<rparr>"]
  from th reachable_db_c have o: "one_vote_per_pair db_c"
    by blast
  from th o k a have
    "one_vote_per_pair (snd (handle cfg0 4000000 (PostVotes alice_token (Accepted \<lparr>vi_post_id = 1, dir = 1\<rparr>)) db_c))"
    "one_vote_per_pair (snd (insert_vote \<lparr>user_id = 1, post_id = 1\<rparr> db_c))"
    "insert_vote \<lparr>user_id = 1, post_id = 1\<rparr> db_c = (Inl IntegrityError, db_c)"
    "fst (vote \<lparr>vi_post_id = 1, dir = 1\<rparr> db_c alice) \<noteq> Inl IntegrityError"
    by blast+
  with reachable_db_c o k a n show ?thesis
    by blast
qed

section \<open>What an update leaves alone\<close>

text \<open>
  C9. Under the primary key of \<open>posts\<close>: a successful update leaves users, votes and
  sequences as they were, keeps every post at its place with its id, owner and creation
  time, leaves every post of another id unchanged and gives the posts of the id the
  title, content and published flag of the payload. No request changes the owner of a
  post: a post that has the id of a post before the request has its owner.
\<close>

theorem update_frame:
  assumes pk: "distinct (map p_id (posts d))"
  shows "(update_post i pc d cu = (Inr r, d') \<longrightarrow>
            users d' = users d \<and> votes d' = votes d
          \<and> users_id_seq d' = users_id_seq d \<and> posts_id_seq d' = posts_id_seq d
          \<and> length (posts d') = length (posts d)
          \<and> (\<forall>k < length (posts d).
                p_id (posts d' ! k) = p_id (posts d ! k)
              \<and> owner_id (posts d' ! k) = owner_id (posts d ! k)
              \<and> p_created_at (posts d' ! k) = p_created_at (posts d ! k)
              \<and> (p_id (posts d ! k) \<noteq> i \<longrightarrow> posts d' ! k = posts d ! k)
              \<and> (p_id (posts d ! k) = i \<longrightarrow>
                    title (posts d' ! k) = pc_title pc
                  \<and> content (posts d' ! k) = pc_content pc
                  \<and> published (posts d' ! k) = pc_published pc)))
       \<and> (\<forall>q \<in> set (posts d). \<forall>q' \<in> set (posts (snd (handle cfg now req d))).
            p_id q' = p_id q \<longrightarrow> owner_id q' = owner_id q)"
proof (intro conjI impI ballI)
  assume u: "update_post i pc d cu = (Inr r, d')"
  then have d': "d' = d\<lparr>posts := map (\<lambda>p. if p_id p = i then set_fields pc p else p) (posts d)\<rparr>"
    by (auto simp: update_post_def update_posts_where_id_def split: option.splits if_splits)
  show "users d' = users d" "votes d' = votes d" "users_id_seq d' = users_id_seq d"
    "posts_id_seq d' = posts_id_seq d" "length (posts d') = length (posts d)"
    by (simp_all add: d')
  show "\<forall>k < length (posts d).
                p_id (posts d' ! k) = p_id (posts d ! k)
              \<and> owner_id (posts d' ! k) = owner_id (posts d ! k)
              \<and> p_created_at (posts d' ! k) = p_created_at (posts d ! k)
              \<and> (p_id (posts d ! k) \<noteq> i \<longrightarrow> posts d' ! k = posts d ! k)
              \<and> (p_id (posts d ! k) = i \<longrightarrow>
                    title (posts d' ! k) = pc_title pc
                  \<and> content (posts d' ! k) = pc_content pc
                  \<and> published (posts d' ! k) = pc_published pc)"
    by (simp add: d' set_fields_def)
next
  fix q q' assume "q \<in> set (posts d)" "q' \<in> set (posts (snd (handle cfg now req d)))"
    "p_id q' = p_id q"
  then show "owner_id q' = owner_id q"
    using step_owner [OF handle_step pk] by blast
qed

theorem update_frame_witness:
  "distinct (map p_id (posts db0))
   \<and> update_post 1 payload0 db0 alice =
        (Inr (Some post1_updated), db0\<lparr>posts := [post1_updated, post2]\<rparr>)
   \<and> users (db0\<lparr>posts := [post1_updated, post2]\<rparr>) = users db0
   \<and> votes (db0\<lparr>posts := [post1_updated, post2]\<rparr>) = votes db0
   \<and> owner_id post1_updated = owner_id post1
   \<and> p_created_at post1_updated = p_created_at post1
   \<and> title post1_updated = pc_title payload0
   \<and> posts (db0\<lparr>posts := [post1_updated, post2]\<rparr>) ! 1 = posts db0 ! 1
   \<and> post1 \<in> set (posts db0)
   \<and> post1_updated \<in> set (posts (snd (handle cfg0 3000000 (PutPost alice_token 1 (Accepted payload0)) db0)))
   \<and> p_id post1_updated = p_id post1"
proof -
  have pk: "distinct (map p_id (posts db0))"
    by (simp add: db0_def post1_def post2_def)
  have ps: "posts db0 = [post1, post2]"
    by (simp add: db0_def)
  have ids: "p_id post1 = 1" "p_id post2 = 2" "owner_id post1 = 1" "u_id alice = 1"
    "p_id post1_updated = 1"
    by (simp_all add: post1_def post2_def alice_def post1_updated_def)
  have up: "post1\<lparr>title := pc_title payload0, content := pc_content payload0,
                   published := pc_published payload0\<rparr> = post1_updated"
    by (simp add: post1_def post1_updated_def payload0_def)
  have u: "update_post 1 payload0 db0 alice =
             (Inr (Some post1_updated), db0\<lparr>posts := [post1_updated, post2]\<rparr>)"
    by (simp add: update_post_def update_posts_where_id_def set_fields_def holds_nul_def
        nul_def payload0_def ps ids up [unfolded payload0_def, simplified])
  note th = update_frame [OF pk, of 1 payload0 alice "Some post1_updated"
      "db0\<lparr>posts := [post1_updated, post2]\<rparr>" cfg0 3000000 "PutPost alice_token 1 (Accepted payload0)"]
  note fr = th [THEN conjunct1, THEN mp, OF u]
  note at = fr [THEN conjunct2, THEN conjunct2, THEN conjunct2, THEN conjunct2,
      THEN conjunct2, rule_format]
  have k0: "0 < length (posts db0)" and k1: "1 < length (posts db0)"
    by (simp_all add: ps)
  have a0: "owner_id post1_updated = owner_id post1"
    "p_created_at post1_updated = p_created_at post1"
    "title post1_updated = pc_title payload0"
    using at [OF k0] by (simp_all add: ps ids)
  have a1: "posts (db0\<lparr>posts := [post1_updated, post2]\<rparr>) ! 1 = posts db0 ! 1"
    using at [OF k1] by (simp add: ps ids)
  have au: "get_current_user cfg0 3000000 alice_token db0 = Inr alice"
    by (simp add: get_current_user_def verify_access_token_def jwt_decode_def alice_token_def
        create_access_token_def jwt_encode_def cfg0_def timegm_utctimetuple_def
        timedelta_minutes_def Let_def db0_def alice_def)
  have h: "snd (handle cfg0 3000000 (PutPost alice_token 1 (Accepted payload0)) db0)
             = db0\<lparr>posts := [post1_updated, post2]\<rparr>"
    by (simp add: handle_def protected_def validated_def au u)
  have m: "post1 \<in> set (posts db0)"
    "post1_updated \<in> set (posts (snd (handle cfg0 3000000 (PutPost alice_token 1 (Accepted payload0)) db0)))"
    "p_id post1_updated = p_id post1"
    by (simp_all add: h ps ids)
  have "owner_id post1_updated = owner_id post1"
    using th [THEN conjunct2, rule_format, OF m] .
  with pk u fr a0 a1 m show ?thesis
    by blast
qed

section \<open>The public user representation\<close>

lemma find_user_set_password:
  "find (\<lambda>u. u_id u = i) (map (set_password g) us)
     = map_option (set_password g) (find (\<lambda>u. u_id u = i) us)"
  by (induction us) (simp_all add: set_password_def)

lemma UserOut_set_password: "UserOut_from_attributes (set_password g u) = UserOut_from_attributes u"
  by (simp add: UserOut_from_attributes_def set_password_def)

lemma comp_set_password:
  "u_id \<circ> set_password g = u_id"
  "email \<circ> set_password g = email"
  by (simp_all add: set_password_def fun_eq_iff)

text \<open>
  C7. The body of the responses of \<^verbatim>\<open>GET /users/{id}\<close> and \<^verbatim>\<open>POST /users\<close> is built from
  the id, the email and the creation time of the row and from nothing else. So the
  response is the same in two databases that differ only in the stored digests, and the
  response to a registration is the same for any other password and any other hash.
\<close>

theorem user_out_hides_password:
  "fst (handle cfg now (GetUser i) d)
     = map_sum (\<lambda>e. e)
         (\<lambda>u. UserBody \<lparr>out_id = u_id u, out_email = email u, out_created_at = u_created_at u\<rparr>)
         (get_user i d)
   \<and> fst (handle cfg now (PostUsers h (Accepted uc)) d)
     = map_sum (\<lambda>e. e)
         (\<lambda>u. UserBody \<lparr>out_id = u_id u, out_email = email u, out_created_at = u_created_at u\<rparr>)
         (fst (create_user h uc now d))
   \<and> fst (handle cfg now (GetUser i) (d\<lparr>users := map (set_password g) (users d)\<rparr>))
     = fst (handle cfg now (GetUser i) d)
   \<and> fst (handle cfg now (PostUsers h' (Accepted (uc\<lparr>uc_password := pw'\<rparr>)))
            (d\<lparr>users := map (set_password g) (users d)\<rparr>))
     = fst (handle cfg now (PostUsers h (Accepted uc)) d)"
proof (intro conjI)
  show "fst (handle cfg now (GetUser i) d)
     = map_sum (\<lambda>e. e)
         (\<lambda>u. UserBody \<lparr>out_id = u_id u, out_email = email u, out_created_at = u_created_at u\<rparr>)
         (get_user i d)"
    by (simp add: handle_def validated_def respond_def UserOut_from_attributes_def)
  show "fst (handle cfg now (PostUsers h (Accepted uc)) d)
     = map_sum (\<lambda>e. e)
         (\<lambda>u. UserBody \<lparr>out_id = u_id u, out_email = email u, out_created_at = u_created_at u\<rparr>)
         (fst (create_user h uc now d))"
    by (simp add: handle_def validated_def respond_def UserOut_from_attributes_def)
  show "fst (handle cfg now (GetUser i) (d\<lparr>users := map (set_password g) (users d)\<rparr>))
     = fst (handle cfg now (GetUser i) d)"
    by (cases "find (\<lambda>u. u_id u = i) (users d)")
      (simp_all add: handle_def respond_def get_user_def find_user_set_password
        UserOut_set_password)
  show "fst (handle cfg now (PostUsers h' (Accepted (uc\<lparr>uc_password := pw'\<rparr>)))
            (d\<lparr>users := map (set_password g) (users d)\<rparr>))
     = fst (handle cfg now (PostUsers h (Accepted uc)) d)"
    by (simp add: handle_def validated_def respond_def create_user_def insert_user_def Let_def
        UserOut_from_attributes_def comp_set_password)
qed

theorem user_out_hides_password_witness:
  "fst (handle cfg0 9000000 (GetUser 1) db0)
     = Inr (UserBody \<lparr>out_id = 1, out_email = ''alice@example.com'', out_created_at = 1000000\<rparr>)
   \<and> fst (handle cfg0 9000000 (GetUser 1)
            (db0\<lparr>users := map (set_password (\<lambda>u. ''another digest'')) (users db0)\<rparr>))
     = Inr (UserBody \<lparr>out_id = 1, out_email = ''alice@example.com'', out_created_at = 1000000\<rparr>)
   \<and> fst (handle cfg0 9000000
            (PostUsers hash0
               (Accepted \<lparr>uc_email = ''carol@example.com'', uc_password = ''carol''\<rparr>)) db0)
     = Inr (UserBody \<lparr>out_id = 3, out_email = ''carol@example.com'', out_created_at = 9000000\<rparr>)
   \<and> fst (handle cfg0 9000000
            (PostUsers (\<lambda>pw. pw)
               (Accepted \<lparr>uc_email = ''carol@example.com'', uc_password = ''12345''\<rparr>))
            (db0\<lparr>users := map (set_password (\<lambda>u. ''another digest'')) (users db0)\<rparr>))
     = Inr (UserBody \<lparr>out_id = 3, out_email = ''carol@example.com'', out_created_at = 9000000\<rparr>)"
proof -
  have g: "get_user 1 db0 = Inr alice"
    by (simp add: get_user_def db0_def alice_def)
  have c: "fst (create_user hash0 \<lparr>uc_email = ''carol@example.com'', uc_password = ''carol''\<rparr>
                  9000000 db0)
           = Inr \<lparr>u_id = 3, email = ''carol@example.com'', password = ''$2b$12$digest-of-carol'',
                  u_created_at = 9000000\<rparr>"
    by (simp add: create_user_def insert_user_def int4_max_def Let_def db0_def alice_def bob_def
        hash0_def)
  note th = user_out_hides_password
      [of cfg0 9000000 1 db0 hash0 "\<lparr>uc_email = ''carol@example.com'', uc_password = ''carol''\<rparr>"
        "\<lambda>u. ''another digest''" "\<lambda>pw. pw" "''12345''"]
  show ?thesis
    using th by (simp add: g c alice_def)
qed

section \<open>Resolving the caller\<close>

text \<open>
  C5. \<open>get_current_user\<close> fails with one and the same exception, 401 with the message
  \<^verbatim>\<open>Could not validate credentials\<close> and the header \<^verbatim>\<open>WWW-Authenticate: Bearer\<close>, when the
  verification of the token fails and when the token verifies but no user has the id
  it carries; it has no other failure.
\<close>

theorem resolver_errors_indistinguishable:
  "(verify_access_token cfg now tok credentials_exception = Inl e \<longrightarrow>
      e = credentials_exception
    \<and> get_current_user cfg now tok d = Inl credentials_exception)
   \<and> (verify_access_token cfg now tok credentials_exception = Inr td
        \<and> (\<forall>u \<in> set (users d). Some (u_id u) \<noteq> td_id td) \<longrightarrow>
      get_current_user cfg now tok d = Inl credentials_exception)
   \<and> (get_current_user cfg now tok d = Inl e \<longrightarrow> e = credentials_exception)
   \<and> status_code credentials_exception = 401
   \<and> detail credentials_exception = ''Could not validate credentials''
   \<and> headers credentials_exception = [(''WWW-Authenticate'', ''Bearer'')]"
proof (intro conjI impI)
  show e: "e = credentials_exception"
    if "verify_access_token cfg now tok credentials_exception = Inl e" for e
    using that
    by (auto simp: verify_access_token_def split: sum.splits option.splits)
  show "get_current_user cfg now tok d = Inl credentials_exception"
    if "verify_access_token cfg now tok credentials_exception = Inl e"
    using that e [OF that] by (simp add: get_current_user_def)
  show "get_current_user cfg now tok d = Inl credentials_exception"
    if "verify_access_token cfg now tok credentials_exception = Inr td
        \<and> (\<forall>u \<in> set (users d). Some (u_id u) \<noteq> td_id td)"
  proof -
    from that have "find (\<lambda>u. Some (u_id u) = td_id td) (users d) = None"
      by (auto simp: find_None_iff)
    with that show ?thesis by (simp add: get_current_user_def)
  qed
  show "e = credentials_exception" if "get_current_user cfg now tok d = Inl e"
    using that e
    by (auto simp: get_current_user_def split: sum.splits option.splits)
qed (simp_all add: credentials_exception_def)

theorem resolver_errors_indistinguishable_witness:
  "verify_access_token cfg0 5000000 Malformed credentials_exception = Inl credentials_exception
   \<and> get_current_user cfg0 5000000 Malformed db0 = Inl credentials_exception
   \<and> verify_access_token cfg0 5000000
        (create_access_token cfg0 2000000 \<lparr>c_user_id = Some 7, c_exp = None\<rparr>)
        credentials_exception = Inr \<lparr>td_id = Some 7\<rparr>
   \<and> Some (u_id alice) \<noteq> Some 7 \<and> Some (u_id bob) \<noteq> Some 7
   \<and> get_current_user cfg0 5000000
        (create_access_token cfg0 2000000 \<lparr>c_user_id = Some 7, c_exp = None\<rparr>) db0
      = Inl credentials_exception
   \<and> get_current_user cfg0 5000000
        (create_access_token cfg0 2000000 \<lparr>c_user_id = Some 7, c_exp = None\<rparr>) db0
      = get_current_user cfg0 5000000 Malformed db0"
proof -
  let ?tok = "create_access_token cfg0 2000000 \<lparr>c_user_id = Some 7, c_exp = None\<rparr>"
  have m: "verify_access_token cfg0 5000000 Malformed credentials_exception
             = Inl credentials_exception"
    by (simp add: verify_access_token_def jwt_decode_def)
  have v: "verify_access_token cfg0 5000000 ?tok credentials_exception = Inr \<lparr>td_id = Some 7\<rparr>"
    by (simp add: verify_access_token_def jwt_decode_def create_access_token_def jwt_encode_def
        cfg0_def timegm_utctimetuple_def timedelta_minutes_def Let_def)
  have u: "users db0 = [alice, bob]" "u_id alice = 1" "u_id bob = 2"
    by (simp_all add: db0_def alice_def bob_def)
  have a: "get_current_user cfg0 5000000 Malformed db0 = Inl credentials_exception"
    using resolver_errors_indistinguishable
      [of cfg0 5000000 Malformed credentials_exception db0] m
    by blast
  have b: "get_current_user cfg0 5000000 ?tok db0 = Inl credentials_exception"
    using resolver_errors_indistinguishable
      [of cfg0 5000000 ?tok _ db0 "\<lparr>td_id = Some 7\<rparr>"] v
    by (simp add: u)
  show ?thesis
    using m v a b by (simp add: u)
qed

section \<open>Issuing and verifying a token\<close>

lemma verify_issued:
  "verify_access_token cfg now
     (create_access_token cfg t0 \<lparr>c_user_id = Some s, c_exp = e0\<rparr>) exc
   = (if (t0 + timedelta_minutes (access_token_expire_minutes cfg)) div 1000000 < now div 1000000
      then Inl exc else Inr \<lparr>td_id = Some s\<rparr>)"
  by (simp add: verify_access_token_def create_access_token_def jwt_encode_def jwt_decode_def
      timegm_utctimetuple_def Let_def)

text \<open>
  C4, as the code has it. The token issued at \<open>t0\<close> for the subject \<open>s\<close> verifies, and
  gives \<open>s\<close> back, at every instant up to \<open>t0\<close> plus the configured minutes, and further to
  the end of the second that instant lies in; it is refused with the given exception
  from the next second on, so at every instant a second or more after the expiry. A
  token whose signature or algorithm does not match and text that is no token are
  refused at any time.
\<close>

theorem token_round_trip:
  "(now \<le> t0 + timedelta_minutes (access_token_expire_minutes cfg) \<longrightarrow>
      verify_access_token cfg now
        (create_access_token cfg t0 \<lparr>c_user_id = Some s, c_exp = None\<rparr>) exc
      = Inr \<lparr>td_id = Some s\<rparr>)
   \<and> (now div 1000000 \<le> (t0 + timedelta_minutes (access_token_expire_minutes cfg)) div 1000000 \<longrightarrow>
      verify_access_token cfg now
        (create_access_token cfg t0 \<lparr>c_user_id = Some s, c_exp = None\<rparr>) exc
      = Inr \<lparr>td_id = Some s\<rparr>)
   \<and> ((t0 + timedelta_minutes (access_token_expire_minutes cfg)) div 1000000 < now div 1000000 \<longrightarrow>
      verify_access_token cfg now
        (create_access_token cfg t0 \<lparr>c_user_id = Some s, c_exp = None\<rparr>) exc
      = Inl exc)
   \<and> (t0 + timedelta_minutes (access_token_expire_minutes cfg) + 1000000 \<le> now \<longrightarrow>
      verify_access_token cfg now
        (create_access_token cfg t0 \<lparr>c_user_id = Some s, c_exp = None\<rparr>) exc
      = Inl exc)
   \<and> (sg \<noteq> HMAC (secret_key cfg) a c \<or> a \<noteq> algorithm cfg \<longrightarrow>
      verify_access_token cfg now (JWT a c sg) exc = Inl exc)
   \<and> verify_access_token cfg now Malformed exc = Inl exc"
proof (intro conjI impI)
  let ?e = "t0 + timedelta_minutes (access_token_expire_minutes cfg)"
  let ?tok = "create_access_token cfg t0 \<lparr>c_user_id = Some s, c_exp = None\<rparr>"
  show "verify_access_token cfg now ?tok exc = Inr \<lparr>td_id = Some s\<rparr>" if "now \<le> ?e"
  proof -
    from that have "now div 1000000 \<le> ?e div 1000000"
      by (rule zdiv_mono1) simp
    then show ?thesis by (simp add: verify_issued)
  qed
  show "verify_access_token cfg now ?tok exc = Inr \<lparr>td_id = Some s\<rparr>"
    if "now div 1000000 \<le> ?e div 1000000"
    using that by (simp add: verify_issued)
  show "verify_access_token cfg now ?tok exc = Inl exc" if "?e div 1000000 < now div 1000000"
    using that by (simp add: verify_issued)
  show "verify_access_token cfg now ?tok exc = Inl exc" if "?e + 1000000 \<le> now"
  proof -
    from that have "(?e + 1000000) div 1000000 \<le> now div 1000000"
      by (rule zdiv_mono1) simp
    then have "?e div 1000000 < now div 1000000"
      by simp
    then show ?thesis by (simp add: verify_issued)
  qed
  show "verify_access_token cfg now (JWT a c sg) exc = Inl exc"
    if "sg \<noteq> HMAC (secret_key cfg) a c \<or> a \<noteq> algorithm cfg"
    using that by (auto simp: verify_access_token_def jwt_decode_def)
  show "verify_access_token cfg now Malformed exc = Inl exc"
    by (simp add: verify_access_token_def jwt_decode_def)
qed

text \<open>
  Refusal at any instant after \<open>t0\<close> plus the configured minutes, as the specification has
  it, fails: a token of 30 minutes issued at 0 still verifies half a second after its
  expiry.
\<close>

theorem token_valid_after_expiry_counterexample:
  "0 + timedelta_minutes (access_token_expire_minutes cfg0) < 1800500000
   \<and> verify_access_token cfg0 1800500000
        (create_access_token cfg0 0 \<lparr>c_user_id = Some 7, c_exp = None\<rparr>) credentials_exception
      = Inr \<lparr>td_id = Some 7\<rparr>"
  by (simp add: verify_issued cfg0_def timedelta_minutes_def)

theorem token_round_trip_witness:
  "5000000 \<le> 2000000 + timedelta_minutes (access_token_expire_minutes cfg0)
   \<and> verify_access_token cfg0 5000000 alice_token credentials_exception = Inr \<lparr>td_id = Some 1\<rparr>
   \<and> verify_access_token cfg0 1802999999 alice_token credentials_exception = Inr \<lparr>td_id = Some 1\<rparr>
   \<and> verify_access_token cfg0 1803000000 alice_token credentials_exception
        = Inl credentials_exception
   \<and> HMAC ''another key'' ''HS256'' \<lparr>c_user_id = Some 1, c_exp = Some 1802\<rparr>
        \<noteq> HMAC (secret_key cfg0) ''HS256'' \<lparr>c_user_id = Some 1, c_exp = Some 1802\<rparr>
   \<and> verify_access_token cfg0 5000000
        (JWT ''HS256'' \<lparr>c_user_id = Some 1, c_exp = Some 1802\<rparr>
           (HMAC ''another key'' ''HS256'' \<lparr>c_user_id = Some 1, c_exp = Some 1802\<rparr>))
        credentials_exception = Inl credentials_exception
   \<and> verify_access_token cfg0 5000000 Malformed credentials_exception = Inl credentials_exception"
proof -
  have ttl: "timedelta_minutes (access_token_expire_minutes cfg0) = 1800000000"
    by (simp add: cfg0_def timedelta_minutes_def)
  have k: "HMAC ''another key'' ''HS256'' \<lparr>c_user_id = Some 1, c_exp = Some 1802\<rparr>
        \<noteq> HMAC (secret_key cfg0) ''HS256'' \<lparr>c_user_id = Some 1, c_exp = Some 1802\<rparr>"
    by (simp add: cfg0_def)
  note th = token_round_trip [of _ 2000000 cfg0 1 credentials_exception
      "HMAC ''another key'' ''HS256'' \<lparr>c_user_id = Some 1, c_exp = Some 1802\<rparr>" "''HS256''"
      "\<lparr>c_user_id = Some 1, c_exp = Some 1802\<rparr>"]
  show ?thesis
    using th [of 5000000] th [of 1802999999] th [of 1803000000] k
    by (simp add: ttl alice_token_def)
qed

section \<open>The join, the grouping and the order\<close>

lemma fresh_id: "i \<notin> set (map p_id ps) \<Longrightarrow> a \<in> set ps \<Longrightarrow> p_id a \<noteq> i"
  by auto

lemma outerjoin_rows_fst: "r \<in> set (outerjoin_rows p vs) \<Longrightarrow> fst r = p"
  by (auto simp: outerjoin_rows_def split: list.splits)

lemma outerjoin_rows_not_Nil: "outerjoin_rows p vs \<noteq> []"
  by (simp add: outerjoin_rows_def split: list.splits)

lemma outerjoin_rows_count:
  "length (filter (\<lambda>x. snd x \<noteq> None) (outerjoin_rows p vs))
     = length (filter (\<lambda>v. post_id v = p_id p) vs)"
proof (cases "filter (\<lambda>v. post_id v = p_id p) vs")
  case Nil
  then show ?thesis by (simp add: outerjoin_rows_def)
next
  case (Cons m ms)
  have "filter (\<lambda>x. snd x \<noteq> None) (map (\<lambda>v. (p, Some v)) (m # ms)) = map (\<lambda>v. (p, Some v)) (m # ms)"
    by (rule filter_True) auto
  then show ?thesis
    using Cons by (simp add: outerjoin_rows_def)
qed

lemma outerjoin_Nil: "outerjoin [] vs = []"
  by (simp add: outerjoin_def)

lemma outerjoin_Cons: "outerjoin (p # ps) vs = outerjoin_rows p vs @ outerjoin ps vs"
  by (simp add: outerjoin_def)

lemma outerjoin_fst: "r \<in> set (outerjoin ps vs) \<Longrightarrow> fst r \<in> set ps"
  by (auto simp: outerjoin_def dest: outerjoin_rows_fst)

lemma filter_outerjoin_rows:
  "filter (\<lambda>r. P (fst r)) (outerjoin_rows p vs) = (if P p then outerjoin_rows p vs else [])"
proof (cases "P p")
  case True
  then have "filter (\<lambda>r. P (fst r)) (outerjoin_rows p vs) = outerjoin_rows p vs"
    by (intro filter_True) (auto dest: outerjoin_rows_fst)
  with True show ?thesis by simp
next
  case False
  then have "filter (\<lambda>r. P (fst r)) (outerjoin_rows p vs) = []"
    by (auto simp: filter_empty_conv dest: outerjoin_rows_fst)
  with False show ?thesis by simp
qed

lemma filter_outerjoin:
  "filter (\<lambda>r. P (fst r)) (outerjoin ps vs) = outerjoin (filter P ps) vs"
  by (induction ps) (simp_all add: outerjoin_Nil outerjoin_Cons filter_outerjoin_rows)

lemma group_by_append:
  assumes ne: "rows \<noteq> []"
    and same: "\<forall>r \<in> set rows. fst r = p"
    and other: "\<forall>r \<in> set rest. p_id (fst r) \<noteq> p_id p"
  shows "group_by (rows @ rest)
           = (p, int (length (filter (\<lambda>x. snd x \<noteq> None) rows))) # group_by rest"
proof -
  from ne obtain r rs where rows: "rows = r # rs"
    by (cases rows) auto
  have r: "fst r = p" and rs: "\<forall>x \<in> set rs. fst x = p"
    using same by (simp_all add: rows)
  have a: "filter (\<lambda>x. p_id (fst x) = p_id p \<and> snd x \<noteq> None) (rows @ rest)
             = filter (\<lambda>x. snd x \<noteq> None) rows"
  proof -
    have "filter (\<lambda>x. p_id (fst x) = p_id p \<and> snd x \<noteq> None) rows
            = filter (\<lambda>x. snd x \<noteq> None) rows"
      using same by (intro filter_cong) auto
    moreover have "filter (\<lambda>x. p_id (fst x) = p_id p \<and> snd x \<noteq> None) rest = []"
      using other by (auto simp: filter_empty_conv)
    ultimately show ?thesis by simp
  qed
  have b: "filter (\<lambda>x. p_id (fst x) \<noteq> p_id p) (rs @ rest) = rest"
  proof -
    have "filter (\<lambda>x. p_id (fst x) \<noteq> p_id p) rs = []"
      using rs by (auto simp: filter_empty_conv)
    moreover have "filter (\<lambda>x. p_id (fst x) \<noteq> p_id p) rest = rest"
      using other by (intro filter_True) auto
    ultimately show ?thesis by simp
  qed
  have "group_by (rows @ rest) = group_by (r # (rs @ rest))"
    by (simp add: rows)
  also have "\<dots> = (fst r, int (length (filter (\<lambda>x. p_id (fst x) = p_id (fst r) \<and> snd x \<noteq> None)
                                  (r # (rs @ rest)))))
                    # group_by (filter (\<lambda>x. p_id (fst x) \<noteq> p_id (fst r)) (rs @ rest))"
    by (rule group_by.simps(2))
  also have "\<dots> = (p, int (length (filter (\<lambda>x. snd x \<noteq> None) rows))) # group_by rest"
    using a b by (simp only: r rows append_Cons)
  finally show ?thesis .
qed

lemma group_by_outerjoin:
  "distinct (map p_id ps) \<Longrightarrow>
   group_by (outerjoin ps vs)
     = map (\<lambda>p. (p, int (length (filter (\<lambda>v. post_id v = p_id p) vs)))) ps"
proof (induction ps)
  case Nil
  show ?case by (simp add: outerjoin_Nil)
next
  case (Cons p ps)
  have other: "\<forall>r \<in> set (outerjoin ps vs). p_id (fst r) \<noteq> p_id p"
  proof
    fix r assume "r \<in> set (outerjoin ps vs)"
    then have "fst r \<in> set ps" by (rule outerjoin_fst)
    moreover have "p_id p \<notin> set (map p_id ps)" using Cons.prems by simp
    ultimately show "p_id (fst r) \<noteq> p_id p" by (rule fresh_id [rotated])
  qed
  have step: "group_by (outerjoin (p # ps) vs)
          = (p, int (length (filter (\<lambda>x. snd x \<noteq> None) (outerjoin_rows p vs))))
              # group_by (outerjoin ps vs)"
    unfolding outerjoin_Cons
    by (rule group_by_append [OF outerjoin_rows_not_Nil _ other])
      (auto dest: outerjoin_rows_fst)
  have ih: "group_by (outerjoin ps vs)
              = map (\<lambda>p. (p, int (length (filter (\<lambda>v. post_id v = p_id p) vs)))) ps"
    using Cons by simp
  show ?case
    unfolding step ih outerjoin_rows_count by simp
qed

lemma insort_key_map:
  "insort_key f (g x) (map g xs) = map g (insort_key (\<lambda>y. f (g y)) x xs)"
  by (induction xs) simp_all

lemma sort_key_map:
  "sort_key f (map g xs) = map g (sort_key (\<lambda>y. f (g y)) xs)"
  by (induction xs) (simp_all add: insort_key_map)

lemma filter_post_id:
  "distinct (map p_id ps) \<Longrightarrow>
   filter (\<lambda>p. p_id p = i) ps = (case find (\<lambda>p. p_id p = i) ps of None \<Rightarrow> [] | Some p \<Rightarrow> [p])"
proof (induction ps)
  case Nil
  show ?case by simp
next
  case (Cons q qs)
  show ?case
  proof (cases "p_id q = i")
    case True
    have "p_id q \<notin> set (map p_id qs)"
      using Cons.prems by simp
    then have "filter (\<lambda>p. p_id p = i) qs = []"
      using True fresh_id [of "p_id q" qs] by (auto simp: filter_empty_conv)
    with True show ?thesis by simp
  next
    case False
    then show ?thesis using Cons by simp
  qed
qed

text \<open>The two reads, under the primary key of posts.\<close>

lemma get_post_eq:
  assumes "distinct (map p_id (posts d))"
  shows "get_post i d cu =
           (case find (\<lambda>p. p_id p = i) (posts d) of
              None \<Rightarrow> Inl (not_found i)
            | Some p \<Rightarrow> Inr (p, vote_count d (p_id p)))"
proof -
  have dist: "distinct (map p_id (filter (\<lambda>p. p_id p = i) (posts d)))"
    using assms by (rule distinct_map_filter)
  have "group_by (filter (\<lambda>r. p_id (fst r) = i) (outerjoin (posts d) (votes d)))
          = map (\<lambda>p. (p, vote_count d (p_id p))) (filter (\<lambda>p. p_id p = i) (posts d))"
    using group_by_outerjoin [OF dist, of "votes d"]
    by (simp add: filter_outerjoin [of "\<lambda>p. p_id p = i"] vote_count_def)
  then show ?thesis
    by (simp add: get_post_def filter_post_id [OF assms] not_found_def split: option.splits)
qed

lemma get_posts_eq:
  assumes "distinct (map p_id (posts d))"
  shows "get_posts d cu limit skip search =
           (if holds_nul search then Inl ValueError
            else limit_offset limit skip
                   (map (\<lambda>p. (p, vote_count d (p_id p)))
                      (sort_key p_id (filter (\<lambda>p. contains (title p) search) (posts d)))))"
proof -
  have dist: "distinct (map p_id (filter (\<lambda>p. contains (title p) search) (posts d)))"
    using assms by (rule distinct_map_filter)
  have "group_by (filter (\<lambda>r. contains (title (fst r)) search) (outerjoin (posts d) (votes d)))
          = map (\<lambda>p. (p, vote_count d (p_id p)))
              (filter (\<lambda>p. contains (title p) search) (posts d))"
    using group_by_outerjoin [OF dist, of "votes d"]
    by (simp add: filter_outerjoin [of "\<lambda>p. contains (title p) search"] vote_count_def)
  then show ?thesis
    by (simp add: get_posts_def order_by_def sort_key_map)
qed

section \<open>Patterns without wildcards\<close>

lemma like_percent:
  "like_match (CHR ''%'' # p) t \<longleftrightarrow> (\<exists>a r. t = a @ r \<and> like_match p r)"
proof (induction t)
  case Nil
  show ?case by simp
next
  case (Cons x t)
  have "like_match (CHR ''%'' # p) (x # t)
          \<longleftrightarrow> like_match p (x # t) \<or> like_match (CHR ''%'' # p) t"
    by simp
  also have "\<dots> \<longleftrightarrow> like_match p (x # t) \<or> (\<exists>a r. t = a @ r \<and> like_match p r)"
    using Cons.IH by simp
  also have "\<dots> \<longleftrightarrow> (\<exists>a r. x # t = a @ r \<and> like_match p r)"
  proof
    assume "like_match p (x # t) \<or> (\<exists>a r. t = a @ r \<and> like_match p r)"
    then show "\<exists>a r. x # t = a @ r \<and> like_match p r"
    proof
      assume "like_match p (x # t)"
      then have "x # t = [] @ (x # t) \<and> like_match p (x # t)" by simp
      then show ?thesis by blast
    next
      assume "\<exists>a r. t = a @ r \<and> like_match p r"
      then obtain a r where "t = a @ r" "like_match p r" by blast
      then have "x # t = (x # a) @ r \<and> like_match p r" by simp
      then show ?thesis by blast
    qed
  next
    assume "\<exists>a r. x # t = a @ r \<and> like_match p r"
    then obtain a r where ar: "x # t = a @ r" "like_match p r" by blast
    show "like_match p (x # t) \<or> (\<exists>a r. t = a @ r \<and> like_match p r)"
    proof (cases a)
      case Nil
      with ar show ?thesis by simp
    next
      case (Cons y a')
      with ar have "t = a' @ r" by simp
      with ar(2) show ?thesis by blast
    qed
  qed
  finally show ?case .
qed

lemma like_literal:
  "set s \<inter> like_wildcards = {} \<Longrightarrow>
   like_match (s @ p) t \<longleftrightarrow> (\<exists>r. t = s @ r \<and> like_match p r)"
proof (induction s arbitrary: t)
  case Nil
  show ?case by simp
next
  case (Cons c s)
  then have c: "c \<noteq> CHR ''%''" "c \<noteq> CHR ''_''" "c \<noteq> backslash"
    and s: "set s \<inter> like_wildcards = {}"
    by (auto simp: like_wildcards_def)
  show ?case
  proof (cases t)
    case Nil
    then show ?thesis using c by simp
  next
    case (Cons x t')
    then show ?thesis
      using c Cons.IH [OF s, of t'] by auto
  qed
qed

lemma like_percent_only: "like_match ''%'' t"
proof -
  have "t = t @ [] \<and> like_match [] []" by simp
  then show ?thesis
    unfolding like_percent by blast
qed

lemma contains_sublist:
  assumes "set search \<inter> like_wildcards = {}"
  shows "contains column search \<longleftrightarrow> sublist search column"
proof -
  have "contains column search
          \<longleftrightarrow> (\<exists>a r. column = a @ r \<and> like_match (search @ ''%'') r)"
    by (simp add: contains_def like_percent del: like_match.simps)
  also have "\<dots> \<longleftrightarrow> (\<exists>a r. column = a @ r \<and> (\<exists>r'. r = search @ r' \<and> like_match ''%'' r'))"
    by (simp only: like_literal [OF assms])
  also have "\<dots> \<longleftrightarrow> (\<exists>a r'. column = a @ search @ r')"
    by (auto simp: like_percent_only simp del: like_match.simps)
  finally show ?thesis
    by (simp add: sublist_def)
qed

lemma contains_empty: "contains column []"
  using contains_sublist [of "[]" column] by simp

section \<open>Listing the posts\<close>

lemma limit_offset_in_range:
  "0 \<le> lim \<Longrightarrow> lim \<le> bigint_max \<Longrightarrow> 0 \<le> off \<Longrightarrow> off \<le> bigint_max \<Longrightarrow>
   limit_offset lim off rows = Inr (take (nat lim) (drop (nat off) rows))"
  by (simp add: limit_offset_def)

text \<open>
  C6, as the code has it. Under the primary key of posts, for a limit and a skip from 0
  to the largest \<^verbatim>\<open>bigint\<close>, and for a search text without the characters \<^verbatim>\<open>%\<close>, \<^verbatim>\<open>_\<close>,
  backslash and NUL: the listing is the specified one. That is: it holds exactly the posts whose
  title contains the search text, each with the number of votes that refer to it, by
  ascending id, without the first \<open>skip\<close> of them and with at most \<open>limit\<close>; a post
  without votes is listed with 0; the empty search text matches every title; and a
  request without parameters is the request with limit 10, skip 0 and the empty text.
\<close>

theorem get_posts_listing:
  assumes pk: "distinct (map p_id (posts d))"
    and lim: "0 \<le> limit" "limit \<le> bigint_max"
    and off: "0 \<le> skip" "skip \<le> bigint_max"
    and lit: "set search \<inter> like_wildcards = {}"
    and text_ok: "\<not> holds_nul search"
  shows "get_posts d cu limit skip search = Inr (list_posts_spec d limit skip search)
       \<and> sorted (map (\<lambda>r. p_id (fst r)) (list_posts_spec d limit skip search))
       \<and> length (list_posts_spec d limit skip search) \<le> nat limit
       \<and> (\<forall>r \<in> set (list_posts_spec d limit skip search).
            fst r \<in> set (posts d) \<and> sublist search (title (fst r))
          \<and> snd r = int (length (filter (\<lambda>v. post_id v = p_id (fst r)) (votes d))))
       \<and> (\<forall>p \<in> set (posts d). sublist search (title p) \<longrightarrow>
            (p, vote_count d (p_id p)) \<in> set (list_posts_spec d (int (length (posts d))) 0 search))
       \<and> (\<forall>p \<in> set (posts d). sublist [] (title p))
       \<and> handle cfg now (GetPosts tok None None None) d
            = handle cfg now (GetPosts tok (Some 10) (Some 0) (Some [])) d"
proof (intro conjI)
  let ?matching = "filter (\<lambda>p. sublist search (title p)) (posts d)"
  let ?all = "map (\<lambda>p. (p, vote_count d (p_id p))) (sort_key p_id ?matching)"
  have same: "filter (\<lambda>p. contains (title p) search) (posts d) = ?matching"
    by (simp add: contains_sublist [OF lit])
  show "get_posts d cu limit skip search = Inr (list_posts_spec d limit skip search)"
    by (simp add: get_posts_eq [OF pk] text_ok same limit_offset_in_range [OF lim off]
        list_posts_spec_def)
  have "sorted (map (\<lambda>r. p_id (fst r)) ?all)"
    by (simp add: comp_def)
  then show "sorted (map (\<lambda>r. p_id (fst r)) (list_posts_spec d limit skip search))"
    unfolding list_posts_spec_def take_map [symmetric] drop_map [symmetric]
    by (simp add: sorted_wrt_drop sorted_wrt_take del: take_map drop_map)
  show "length (list_posts_spec d limit skip search) \<le> nat limit"
    by (simp add: list_posts_spec_def)
  show "\<forall>r \<in> set (list_posts_spec d limit skip search).
            fst r \<in> set (posts d) \<and> sublist search (title (fst r))
          \<and> snd r = int (length (filter (\<lambda>v. post_id v = p_id (fst r)) (votes d)))"
  proof
    fix r assume "r \<in> set (list_posts_spec d limit skip search)"
    then have "r \<in> set ?all"
      unfolding list_posts_spec_def by (meson in_set_dropD in_set_takeD)
    then show "fst r \<in> set (posts d) \<and> sublist search (title (fst r))
          \<and> snd r = int (length (filter (\<lambda>v. post_id v = p_id (fst r)) (votes d)))"
      by (auto simp: vote_count_def)
  qed
  show "\<forall>p \<in> set (posts d). sublist search (title p) \<longrightarrow>
            (p, vote_count d (p_id p)) \<in> set (list_posts_spec d (int (length (posts d))) 0 search)"
  proof (intro ballI impI)
    fix p assume "p \<in> set (posts d)" "sublist search (title p)"
    then have "(p, vote_count d (p_id p)) \<in> set ?all"
      by auto
    moreover have "length ?all \<le> length (posts d)"
      by simp
    ultimately show "(p, vote_count d (p_id p))
                       \<in> set (list_posts_spec d (int (length (posts d))) 0 search)"
      by (simp add: list_posts_spec_def)
  qed
  show "\<forall>p \<in> set (posts d). sublist [] (title p)"
    by simp
  show "handle cfg now (GetPosts tok None None None) d
            = handle cfg now (GetPosts tok (Some 10) (Some 0) (Some [])) d"
    by (simp add: handle_def limit_default_def skip_default_def search_default_def)
qed

text \<open>
  For every request, as the specification has it, the statement fails three times. The
  search text \<^verbatim>\<open>_\<close> lists both posts of \<open>db0\<close>, though no title contains an underscore: the
  text is a \<^verbatim>\<open>LIKE\<close> pattern. A negative limit gives no listing but the error of the
  database, and a search text with a NUL the error of the driver.
\<close>

theorem get_posts_listing_counterexample:
  "get_posts db0 alice 10 0 ''_'' = Inr [(post1, 1), (post2, 0)]
   \<and> list_posts_spec db0 10 0 ''_'' = []
   \<and> get_posts db0 alice 10 0 ''_'' \<noteq> Inr (list_posts_spec db0 10 0 ''_'')
   \<and> get_posts db0 alice (- 1) 0 [] = Inl DataError
   \<and> get_posts db0 alice (- 1) 0 [] \<noteq> Inr (list_posts_spec db0 (- 1) 0 [])
   \<and> get_posts db0 alice 10 0 [nul] = Inl ValueError
   \<and> get_posts db0 alice 10 0 [nul] \<noteq> Inr (list_posts_spec db0 10 0 [nul])"
proof -
  have a: "get_posts db0 alice 10 0 ''_'' = Inr [(post1, 1), (post2, 0)]"
    by code_simp
  have b: "list_posts_spec db0 10 0 ''_'' = []"
    by code_simp
  have c: "get_posts db0 alice (- 1) 0 [] = Inl DataError"
    by code_simp
  have e: "get_posts db0 alice 10 0 [nul] = Inl ValueError"
    by (simp add: get_posts_def holds_nul_def)
  show ?thesis
    by (simp add: a b c e)
qed

theorem get_posts_listing_witness:
  "distinct (map p_id (posts db0))
   \<and> (0 :: int) \<le> 10 \<and> 10 \<le> bigint_max \<and> (0 :: int) \<le> 0 \<and> 0 \<le> bigint_max
   \<and> set ''b'' \<inter> like_wildcards = {} \<and> \<not> holds_nul ''b''
   \<and> get_posts db0 alice 10 0 ''b'' = Inr [(post1, 1)]
   \<and> (0 :: int) \<le> 1 \<and> 1 \<le> bigint_max \<and> set [] \<inter> like_wildcards = {} \<and> \<not> holds_nul []
   \<and> get_posts db0 alice 1 1 [] = Inr [(post2, 0)]"
proof -
  have pk: "distinct (map p_id (posts db0))"
    by (simp add: db0_def post1_def post2_def)
  have r: "(0 :: int) \<le> 10" "10 \<le> bigint_max" "(0 :: int) \<le> 0" "0 \<le> bigint_max"
    "(0 :: int) \<le> 1" "1 \<le> bigint_max"
    by (simp_all add: bigint_max_def)
  have b: "set ''b'' \<inter> like_wildcards = {}" and e: "set [] \<inter> like_wildcards = {}"
    by (simp_all add: like_wildcards_def backslash_def)
  have nb: "\<not> holds_nul ''b''" and ne: "\<not> holds_nul []"
    by (simp_all add: holds_nul_def nul_def)
  have s1: "list_posts_spec db0 10 0 ''b'' = [(post1, 1)]"
    by code_simp
  have s2: "list_posts_spec db0 1 1 [] = [(post2, 0)]"
    by code_simp
  have "get_posts db0 alice 10 0 ''b'' = Inr [(post1, 1)]"
    using get_posts_listing [OF pk r(1) r(2) r(3) r(4) b nb, of alice] by (simp only: s1)
  moreover have "get_posts db0 alice 1 1 [] = Inr [(post2, 0)]"
    using get_posts_listing [OF pk r(5) r(6) r(5) r(6) e ne, of alice] by (simp only: s2)
  ultimately show ?thesis
    using pk r b e nb ne by simp
qed

section \<open>Reading a post after creating it\<close>

text \<open>
  C8. In a database that satisfies its constraints: whenever \<open>create_post\<close> returns a new
  post, the post has the fields of the payload, the caller as its owner and an id that
  no post had, and \<open>get_post\<close> on its id, by any reader, then returns that post with the
  vote count 0. And \<open>create_post\<close> does return a post when the sequences are ahead of the
  ids, as in every reachable state, the sequence of posts is not exhausted, the owner
  is authenticated and neither title nor content holds NUL.
\<close>

theorem create_then_get:
  assumes ok: "constraints d"
  shows "(create_post post now d current_user = (Inr p, d') \<longrightarrow>
            title p = pc_title post \<and> content p = pc_content post
          \<and> published p = pc_published post \<and> owner_id p = u_id current_user
          \<and> p_id p \<notin> set (map p_id (posts d))
          \<and> get_post (p_id p) d' reader = Inr (p, 0))
       \<and> (sequences_ahead d \<and> posts_id_seq d \<le> int4_max \<and> current_user \<in> set (users d)
            \<and> \<not> holds_nul (pc_title post) \<and> \<not> holds_nul (pc_content post) \<longrightarrow>
            (\<exists>p d'. create_post post now d current_user = (Inr p, d')))"
proof (intro conjI impI)
  define row where "row = \<lparr>p_id = posts_id_seq d, title = pc_title post,
      content = pc_content post, published = pc_published post, p_created_at = now,
      owner_id = u_id current_user\<rparr>"
  define d1 where "d1 = d\<lparr>posts_id_seq := posts_id_seq d + 1, posts := posts d @ [row]\<rparr>"
  {
    assume cr: "create_post post now d current_user = (Inr p, d')"
    then have fresh: "posts_id_seq d \<notin> set (map p_id (posts d))"
      and p: "p = row" and d': "d' = d1"
      by (auto simp: create_post_def insert_post_def Let_def row_def d1_def split: if_splits)
    have pk': "distinct (map p_id (posts d1))"
      using ok fresh by (simp add: constraints_def d1_def row_def)
    have "find (\<lambda>q. p_id q = p_id row) (posts d1) = Some row"
      by (rule find_post_unique [OF pk']) (simp add: d1_def)
    moreover have "vote_count d1 (p_id row) = 0"
    proof -
      have "\<forall>v \<in> set (votes d). post_id v \<in> set (map p_id (posts d))"
        using ok by (simp add: constraints_def)
      with fresh have "\<forall>v \<in> set (votes d). post_id v \<noteq> posts_id_seq d"
        by metis
      then show ?thesis
        by (simp add: vote_count_def d1_def row_def filter_empty_conv)
    qed
    ultimately have g: "get_post (p_id row) d1 reader = Inr (row, 0)"
      by (simp add: get_post_eq [OF pk'])
    show "title p = pc_title post" "content p = pc_content post"
      "published p = pc_published post" "owner_id p = u_id current_user"
      by (simp_all add: p row_def)
    show "p_id p \<notin> set (map p_id (posts d))"
      using fresh by (simp add: p row_def)
    show "get_post (p_id p) d' reader = Inr (p, 0)"
      using g by (simp add: p d')
  }
  assume a: "sequences_ahead d \<and> posts_id_seq d \<le> int4_max \<and> current_user \<in> set (users d)
            \<and> \<not> holds_nul (pc_title post) \<and> \<not> holds_nul (pc_content post)"
  then have fresh: "posts_id_seq d \<notin> set (map p_id (posts d))"
    by (auto simp: sequences_ahead_def)
  have uid: "u_id current_user \<in> set (map u_id (users d))"
    using a by simp
  have "create_post post now d current_user = (Inr row, d1)"
    using a fresh uid by (simp add: create_post_def insert_post_def Let_def row_def d1_def)
  then show "\<exists>p d'. create_post post now d current_user = (Inr p, d')"
    by blast
qed

theorem create_then_get_witness:
  "constraints db0 \<and> sequences_ahead db0 \<and> posts_id_seq db0 \<le> int4_max
   \<and> alice \<in> set (users db0)
   \<and> \<not> holds_nul (pc_title payload0) \<and> \<not> holds_nul (pc_content payload0)
   \<and> create_post payload0 9000000 db0 alice
        = (Inr post3, db0\<lparr>posts_id_seq := 4, posts := [post1, post2, post3]\<rparr>)
   \<and> title post3 = pc_title payload0 \<and> owner_id post3 = u_id alice
   \<and> get_post 3 (db0\<lparr>posts_id_seq := 4, posts := [post1, post2, post3]\<rparr>) bob = Inr (post3, 0)"
proof -
  have c: "constraints db0"
    by (simp add: constraints_def db0_def alice_def bob_def post1_def post2_def vote_key_def)
  have s: "sequences_ahead db0" "posts_id_seq db0 \<le> int4_max"
    by (simp_all add: sequences_ahead_def db0_def alice_def bob_def post1_def post2_def
        int4_max_def)
  have a: "alice \<in> set (users db0)"
    by (simp add: db0_def)
  have n: "\<not> holds_nul (pc_title payload0)" "\<not> holds_nul (pc_content payload0)"
    by (simp_all add: holds_nul_def nul_def payload0_def)
  note th = create_then_get [OF c, of payload0 9000000 alice]
  from th [THEN conjunct2] s a n
  obtain p d' where pd: "create_post payload0 9000000 db0 alice = (Inr p, d')"
    by blast
  have cr: "create_post payload0 9000000 db0 alice
              = (Inr post3, db0\<lparr>posts_id_seq := 4, posts := [post1, post2, post3]\<rparr>)"
    by (simp add: create_post_def insert_post_def Let_def db0_def alice_def bob_def post1_def
        post2_def post3_def payload0_def holds_nul_def nul_def int4_max_def)
  have r: "title post3 = pc_title payload0 \<and> content post3 = pc_content payload0
          \<and> published post3 = pc_published payload0 \<and> owner_id post3 = u_id alice
          \<and> p_id post3 \<notin> set (map p_id (posts db0))
          \<and> get_post (p_id post3) (db0\<lparr>posts_id_seq := 4, posts := [post1, post2, post3]\<rparr>) bob
              = Inr (post3, 0)"
    using th [where p = post3
        and d' = "db0\<lparr>posts_id_seq := 4, posts := [post1, post2, post3]\<rparr>" and reader = bob,
        THEN conjunct1, THEN mp, OF cr] .
  have i: "p_id post3 = 3"
    by (simp add: post3_def)
  from c s a n cr r show ?thesis
    by (simp add: i)
qed

section \<open>The published flag and the reads\<close>

lemma set_published_fields:
  "p_id (set_published f p) = p_id p" "title (set_published f p) = title p"
  by (simp_all add: set_published_def)

lemma outerjoin_rows_set_published:
  "outerjoin_rows (set_published f p) vs = map (apfst (set_published f)) (outerjoin_rows p vs)"
  by (simp add: outerjoin_rows_def set_published_fields split: list.splits)

lemma outerjoin_set_published:
  "outerjoin (map (set_published f) ps) vs = map (apfst (set_published f)) (outerjoin ps vs)"
  by (induction ps) (simp_all add: outerjoin_Nil outerjoin_Cons outerjoin_rows_set_published)

lemma filter_apfst:
  "filter (\<lambda>r. P (fst r)) (map (apfst g) rows) = map (apfst g) (filter (\<lambda>r. P (g (fst r))) rows)"
  by (induction rows) simp_all

lemma group_by_set_published:
  "group_by (map (apfst (set_published f)) rows) = map (apfst (set_published f)) (group_by rows)"
proof (induction rows rule: group_by.induct)
  case 1
  show ?case by simp
next
  case (2 r rs)
  let ?g = "apfst (set_published f)"
  have cnt: "length (filter (\<lambda>x. p_id (fst x) = p_id (fst (?g r)) \<and> snd x \<noteq> None)
                       (map ?g (r # rs)))
           = length (filter (\<lambda>x. p_id (fst x) = p_id (fst r) \<and> snd x \<noteq> None) (r # rs))"
    by (simp only: filter_map length_map comp_def fst_apfst snd_apfst set_published_fields)
  have rest: "filter (\<lambda>x. p_id (fst x) \<noteq> p_id (fst (?g r))) (map ?g rs)
           = map ?g (filter (\<lambda>x. p_id (fst x) \<noteq> p_id (fst r)) rs)"
    by (simp only: filter_map comp_def fst_apfst set_published_fields)
  have "group_by (map ?g (r # rs)) = group_by (?g r # map ?g rs)"
    by simp
  also have "\<dots> = (fst (?g r),
                    int (length (filter (\<lambda>x. p_id (fst x) = p_id (fst (?g r)) \<and> snd x \<noteq> None)
                                   (?g r # map ?g rs))))
                   # group_by (filter (\<lambda>x. p_id (fst x) \<noteq> p_id (fst (?g r))) (map ?g rs))"
    by (rule group_by.simps(2))
  also have "\<dots> = ?g (fst r, int (length (filter (\<lambda>x. p_id (fst x) = p_id (fst r) \<and> snd x \<noteq> None)
                                              (r # rs))))
                   # map ?g (group_by (filter (\<lambda>x. p_id (fst x) \<noteq> p_id (fst r)) rs))"
    using cnt rest "2.IH" by (simp del: group_by.simps)
  also have "\<dots> = map ?g (group_by (r # rs))"
    by (simp only: group_by.simps(2) list.map)
  finally show ?case .
qed

lemma order_by_set_published:
  "order_by (map (apfst (set_published f)) rows) = map (apfst (set_published f)) (order_by rows)"
  by (simp add: order_by_def sort_key_map set_published_fields)

lemma limit_offset_map:
  "limit_offset lim off (map g rows) = map_sum (\<lambda>e. e) (map g) (limit_offset lim off rows)"
  by (simp add: limit_offset_def take_map drop_map)

text \<open>
  C10. Neither read looks at \<open>published\<close>: whatever the flags are set to, \<open>get_posts\<close> and
  \<open>get_post\<close> return the same rows with the same counts, in the same order, up to the
  flags themselves. Under the primary key of posts, every post, published or not, is
  returned by \<open>get_post\<close> on its id, and the listing without search text, sized to the
  table, holds every post.
\<close>

theorem published_not_filtered:
  "get_posts (d\<lparr>posts := map (set_published f) (posts d)\<rparr>) cu limit skip search
     = map_sum (\<lambda>e. e) (map (apfst (set_published f))) (get_posts d cu limit skip search)
   \<and> get_post i (d\<lparr>posts := map (set_published f) (posts d)\<rparr>) cu
     = map_sum (\<lambda>e. e) (apfst (set_published f)) (get_post i d cu)
   \<and> (distinct (map p_id (posts d)) \<longrightarrow>
        (\<forall>p \<in> set (posts d). get_post (p_id p) d cu = Inr (p, vote_count d (p_id p))))
   \<and> (distinct (map p_id (posts d)) \<and> int (length (posts d)) \<le> bigint_max \<longrightarrow>
        get_posts d cu (int (length (posts d))) 0 []
          = Inr (map (\<lambda>p. (p, vote_count d (p_id p))) (sort_key p_id (posts d))))"
proof (intro conjI impI ballI)
  let ?g = "set_published f"
  let ?d = "d\<lparr>posts := map ?g (posts d)\<rparr>"
  have rows: "filter (\<lambda>r. P (fst r)) (outerjoin (posts ?d) (votes ?d))
                = map (apfst ?g) (filter (\<lambda>r. P (?g (fst r))) (outerjoin (posts d) (votes d)))"
    for P
    by (simp add: outerjoin_set_published filter_apfst)
  show "get_posts ?d cu limit skip search
          = map_sum (\<lambda>e. e) (map (apfst ?g)) (get_posts d cu limit skip search)"
  proof (cases "holds_nul search")
    case True
    then show ?thesis by (simp add: get_posts_def)
  next
    case False
    have "limit_offset limit skip
            (order_by (group_by
               (filter (\<lambda>r. contains (title (fst r)) search) (outerjoin (posts ?d) (votes ?d)))))
          = map_sum (\<lambda>e. e) (map (apfst ?g))
              (limit_offset limit skip
                 (order_by (group_by
                    (filter (\<lambda>r. contains (title (fst r)) search)
                       (outerjoin (posts d) (votes d))))))"
      unfolding rows [of "\<lambda>p. contains (title p) search"]
      by (simp only: set_published_fields group_by_set_published order_by_set_published
          limit_offset_map)
    with False show ?thesis by (simp only: get_posts_def if_False)
  qed
  show "get_post i ?d cu = map_sum (\<lambda>e. e) (apfst ?g) (get_post i d cu)"
    unfolding get_post_def rows [of "\<lambda>p. p_id p = i"]
    by (simp add: set_published_fields group_by_set_published split: list.splits
        del: group_by.simps)
next
  fix p assume pk: "distinct (map p_id (posts d))" and p: "p \<in> set (posts d)"
  show "get_post (p_id p) d cu = Inr (p, vote_count d (p_id p))"
    by (simp add: get_post_eq [OF pk] find_post_unique [OF pk p])
next
  assume a: "distinct (map p_id (posts d)) \<and> int (length (posts d)) \<le> bigint_max"
  then have pk: "distinct (map p_id (posts d))" and n: "int (length (posts d)) \<le> bigint_max"
    by simp_all
  have all: "filter (\<lambda>p. contains (title p) []) (posts d) = posts d"
    by (simp add: contains_empty)
  have z: "(0 :: int) \<le> bigint_max"
    by (simp add: bigint_max_def)
  show "get_posts d cu (int (length (posts d))) 0 []
          = Inr (map (\<lambda>p. (p, vote_count d (p_id p))) (sort_key p_id (posts d)))"
    by (simp add: get_posts_eq [OF pk] holds_nul_def all limit_offset_in_range [OF _ n _ z])
qed

theorem published_not_filtered_witness:
  "published post2 = False \<and> distinct (map p_id (posts db0))
   \<and> int (length (posts db0)) \<le> bigint_max
   \<and> post2 \<in> set (posts db0)
   \<and> get_post 2 db0 alice = Inr (post2, 0)
   \<and> get_posts db0 alice 2 0 [] = Inr [(post1, 1), (post2, 0)]
   \<and> get_post 2 (db0\<lparr>posts := map (set_published (\<lambda>p. True)) (posts db0)\<rparr>) alice
       = Inr (post2\<lparr>published := True\<rparr>, 0)
   \<and> get_posts (db0\<lparr>posts := map (set_published (\<lambda>p. True)) (posts db0)\<rparr>) alice 2 0 []
       = Inr [(post1, 1), (post2\<lparr>published := True\<rparr>, 0)]"
proof -
  have pk: "distinct (map p_id (posts db0))" and n: "int (length (posts db0)) \<le> bigint_max"
    and m: "post2 \<in> set (posts db0)" and u: "published post2 = False"
    and l: "int (length (posts db0)) = 2"
    by (simp_all add: db0_def post1_def post2_def bigint_max_def)
  have vc: "vote_count db0 2 = 0" "p_id post2 = 2"
    "map (\<lambda>p. (p, vote_count db0 (p_id p))) (sort_key p_id (posts db0))
       = [(post1, 1), (post2, 0)]"
    by code_simp+
  have sp: "set_published (\<lambda>p. True) post1 = post1"
    "set_published (\<lambda>p. True) post2 = post2\<lparr>published := True\<rparr>"
    by (simp_all add: set_published_def post1_def)
  note th = published_not_filtered [where d = db0 and f = "\<lambda>p. True" and cu = alice
      and limit = 2 and skip = 0 and search = "[]" and i = 2]
  have g: "get_post 2 db0 alice = Inr (post2, 0)"
    using th [THEN conjunct2, THEN conjunct2, THEN conjunct1, THEN mp, OF pk, rule_format, OF m]
    by (simp only: vc)
  have gs: "get_posts db0 alice 2 0 [] = Inr [(post1, 1), (post2, 0)]"
    using th [THEN conjunct2, THEN conjunct2, THEN conjunct2, THEN mp, OF conjI [OF pk n]]
    by (simp only: vc l)
  have g': "get_post 2 (db0\<lparr>posts := map (set_published (\<lambda>p. True)) (posts db0)\<rparr>) alice
              = Inr (post2\<lparr>published := True\<rparr>, 0)"
    using th [THEN conjunct2, THEN conjunct1] by (simp add: g sp)
  have gs': "get_posts (db0\<lparr>posts := map (set_published (\<lambda>p. True)) (posts db0)\<rparr>) alice 2 0 []
              = Inr [(post1, 1), (post2\<lparr>published := True\<rparr>, 0)]"
    using th [THEN conjunct1] by (simp add: gs sp)
  from u pk n m g gs g' gs' show ?thesis
    by simp
qed

end
